theory Spec2Isabelle
  imports Main "HOL-Library.Word"
begin

unbundle bit_operations_syntax

section \<open>The segregated free list allocator (mm.c) as HOL functions\<close>

text \<open>
  The allocator stores a predecessor and a successor pointer in the first two words of a
  free payload, four bytes apart (\<^verbatim>\<open>SUCC_PTR(bp) = bp + WSIZE\<close>), so it is written for a
  target whose pointers, \<^verbatim>\<open>size_t\<close> and \<^verbatim>\<open>unsigned int\<close> all have 32 bits. Addresses and
  sizes are therefore 32-bit words: pointer arithmetic and size arithmetic wrap around.
  Memory is a flat array of bytes; a word is read and written little-endian, four bytes
  at a time, at any address. The null pointer is the address 0.
\<close>

type_synonym word32 = "32 word"
type_synonym memory = "word32 \<Rightarrow> 8 word"

record heap =
  mem :: memory
  seg_list :: word32
  mem_heap_lo :: word32
  mem_brk :: word32
  mem_max_addr :: word32

subsection \<open>Constants and macros\<close>

abbreviation WSIZE :: word32 where "WSIZE \<equiv> 4"
abbreviation DSIZE :: word32 where "DSIZE \<equiv> 8"
abbreviation CHUNKSIZE :: word32 where "CHUNKSIZE \<equiv> 4096"
abbreviation LIST_LIMIT :: nat where "LIST_LIMIT \<equiv> 20"
abbreviation NULL :: word32 where "NULL \<equiv> 0"

text \<open>\<^verbatim>\<open>GET(p)\<close> and \<^verbatim>\<open>PUT(p, val)\<close>: an \<^verbatim>\<open>unsigned int\<close> at address \<open>p\<close>.\<close>

definition GET :: "memory \<Rightarrow> word32 \<Rightarrow> word32" where
  "GET m p = ucast (m p) OR push_bit 8 (ucast (m (p + 1)))
             OR push_bit 16 (ucast (m (p + 2))) OR push_bit 24 (ucast (m (p + 3)))"

definition PUT :: "memory \<Rightarrow> word32 \<Rightarrow> word32 \<Rightarrow> memory" where
  "PUT m p val = m(p := ucast val, p + 1 := ucast (drop_bit 8 val),
                   p + 2 := ucast (drop_bit 16 val), p + 3 := ucast (drop_bit 24 val))"

definition PACK :: "word32 \<Rightarrow> word32 \<Rightarrow> word32" where
  "PACK sz alloc = sz OR alloc"

definition GET_SIZE :: "memory \<Rightarrow> word32 \<Rightarrow> word32" where
  "GET_SIZE m p = GET m p AND NOT 7"

definition GET_ALLOC :: "memory \<Rightarrow> word32 \<Rightarrow> word32" where
  "GET_ALLOC m p = GET m p AND 1"

definition HDRP :: "word32 \<Rightarrow> word32" where
  "HDRP bp = bp - WSIZE"

definition FTRP :: "memory \<Rightarrow> word32 \<Rightarrow> word32" where
  "FTRP m bp = bp + GET_SIZE m (HDRP bp) - DSIZE"

definition NEXT_BLKP :: "memory \<Rightarrow> word32 \<Rightarrow> word32" where
  "NEXT_BLKP m bp = bp + GET_SIZE m (bp - WSIZE)"

definition PREV_BLKP :: "memory \<Rightarrow> word32 \<Rightarrow> word32" where
  "PREV_BLKP m bp = bp - GET_SIZE m (bp - DSIZE)"

definition GET_PRED :: "memory \<Rightarrow> word32 \<Rightarrow> word32" where
  "GET_PRED m bp = GET m bp"

definition GET_SUCC :: "memory \<Rightarrow> word32 \<Rightarrow> word32" where
  "GET_SUCC m bp = GET m (bp + WSIZE)"

definition SET_PRED :: "memory \<Rightarrow> word32 \<Rightarrow> word32 \<Rightarrow> memory" where
  "SET_PRED m bp ptr = PUT m bp ptr"

definition SET_SUCC :: "memory \<Rightarrow> word32 \<Rightarrow> word32 \<Rightarrow> memory" where
  "SET_SUCC m bp ptr = PUT m (bp + WSIZE) ptr"

text \<open>\<^verbatim>\<open>seg_list[i]\<close>: the table of list heads is an array of 4-byte pointers at \<open>seg_list\<close>.\<close>

definition seg_slot :: "word32 \<Rightarrow> nat \<Rightarrow> word32" where
  "seg_slot base i = base + 4 * of_nat i"

definition seg_get :: "heap \<Rightarrow> nat \<Rightarrow> word32" where
  "seg_get s i = GET (mem s) (seg_slot (seg_list s) i)"

definition seg_set :: "heap \<Rightarrow> nat \<Rightarrow> word32 \<Rightarrow> heap" where
  "seg_set s i p = s\<lparr>mem := PUT (mem s) (seg_slot (seg_list s) i) p\<rparr>"

definition put :: "heap \<Rightarrow> word32 \<Rightarrow> word32 \<Rightarrow> heap" where
  "put s p val = s\<lparr>mem := PUT (mem s) p val\<rparr>"

subsection \<open>The heap provider\<close>

text \<open>
  Modelled from the spec: the memory library (\<^verbatim>\<open>memlib.h\<close>: \<^verbatim>\<open>mem_sbrk\<close>, \<^verbatim>\<open>mem_heap_lo\<close>,
  \<^verbatim>\<open>mem_heap_hi\<close>) is not among the sources. The spec gives its contract: \<open>extend(n)\<close> grows
  the heap by exactly \<open>n\<close> bytes at the tail and returns the address of the first newly
  added byte, or returns the sentinel \<open>-1\<close> on failure, and it preserves the existing
  bytes; \<open>lo()\<close> is the fixed low address and \<open>hi()\<close> the current exclusive high address.
  The provider refuses a request that would pass its capacity \<open>mem_max_addr\<close>.
\<close>

definition mem_sbrk :: "heap \<Rightarrow> word32 \<Rightarrow> heap \<times> word32" where
  "mem_sbrk s incr =
     (if unat (mem_brk s) + unat incr \<le> unat (mem_max_addr s)
      then (s\<lparr>mem_brk := mem_brk s + incr\<rparr>, mem_brk s)
      else (s, - 1))"

definition mem_heap_hi :: "heap \<Rightarrow> word32" where
  "mem_heap_hi s = mem_brk s"

subsection \<open>Size classes and free lists\<close>

definition get_list_index :: "word32 \<Rightarrow> nat" where
  "get_list_index sz =
     (if sz \<le> 16 then 0 else if sz \<le> 24 then 1 else if sz \<le> 32 then 2
      else if sz \<le> 40 then 3 else if sz \<le> 48 then 4 else if sz \<le> 56 then 5
      else if sz \<le> 64 then 6 else if sz \<le> 72 then 7 else if sz \<le> 80 then 8
      else if sz \<le> 88 then 9 else if sz \<le> 96 then 10 else if sz \<le> 104 then 11
      else if sz \<le> 112 then 12 else if sz \<le> 128 then 13 else if sz \<le> 256 then 14
      else if sz \<le> 512 then 15 else if sz \<le> 1024 then 16 else if sz \<le> 2048 then 17
      else if sz \<le> 4096 then 18 else 19)"

definition insert_node :: "heap \<Rightarrow> word32 \<Rightarrow> word32 \<Rightarrow> heap" where
  "insert_node s bp sz =
     (let index = get_list_index sz;
          root = seg_get s index;
          s1 = s\<lparr>mem := SET_SUCC (mem s) bp root\<rparr>;
          s2 = s1\<lparr>mem := SET_PRED (mem s1) bp NULL\<rparr>;
          s3 = (if root \<noteq> NULL then s2\<lparr>mem := SET_PRED (mem s2) root bp\<rparr> else s2)
      in seg_set s3 index bp)"

definition delete_node :: "heap \<Rightarrow> word32 \<Rightarrow> heap" where
  "delete_node s bp =
     (let sz = GET_SIZE (mem s) (HDRP bp);
          index = get_list_index sz;
          s1 = (if GET_PRED (mem s) bp \<noteq> NULL
                then s\<lparr>mem := SET_SUCC (mem s) (GET_PRED (mem s) bp) (GET_SUCC (mem s) bp)\<rparr>
                else seg_set s index (GET_SUCC (mem s) bp))
      in if GET_SUCC (mem s1) bp \<noteq> NULL
         then s1\<lparr>mem := SET_PRED (mem s1) (GET_SUCC (mem s1) bp) (GET_PRED (mem s1) bp)\<rparr>
         else s1)"

subsection \<open>Coalescing, heap extension, placement\<close>

definition coalesce :: "heap \<Rightarrow> word32 \<Rightarrow> heap \<times> word32" where
  "coalesce s bp =
     (let prev_alloc = GET_ALLOC (mem s) (FTRP (mem s) (PREV_BLKP (mem s) bp));
          next_alloc = GET_ALLOC (mem s) (HDRP (NEXT_BLKP (mem s) bp));
          sz = GET_SIZE (mem s) (HDRP bp)
      in if prev_alloc \<noteq> 0 \<and> next_alloc \<noteq> 0 then (insert_node s bp sz, bp)
         else if prev_alloc \<noteq> 0 \<and> next_alloc = 0 then
           (let s1 = delete_node s (NEXT_BLKP (mem s) bp);
                sz1 = sz + GET_SIZE (mem s1) (HDRP (NEXT_BLKP (mem s1) bp));
                s2 = put s1 (HDRP bp) (PACK sz1 0);
                s3 = put s2 (FTRP (mem s2) bp) (PACK sz1 0)
            in (insert_node s3 bp sz1, bp))
         else if prev_alloc = 0 \<and> next_alloc \<noteq> 0 then
           (let s1 = delete_node s (PREV_BLKP (mem s) bp);
                sz1 = sz + GET_SIZE (mem s1) (HDRP (PREV_BLKP (mem s1) bp));
                s2 = put s1 (FTRP (mem s1) bp) (PACK sz1 0);
                s3 = put s2 (HDRP (PREV_BLKP (mem s2) bp)) (PACK sz1 0);
                bp1 = PREV_BLKP (mem s3) bp
            in (insert_node s3 bp1 sz1, bp1))
         else
           (let s1 = delete_node s (PREV_BLKP (mem s) bp);
                s2 = delete_node s1 (NEXT_BLKP (mem s1) bp);
                sz1 = sz + (GET_SIZE (mem s2) (HDRP (PREV_BLKP (mem s2) bp))
                                + GET_SIZE (mem s2) (FTRP (mem s2) (NEXT_BLKP (mem s2) bp)));
                s3 = put s2 (HDRP (PREV_BLKP (mem s2) bp)) (PACK sz1 0);
                s4 = put s3 (FTRP (mem s3) (NEXT_BLKP (mem s3) bp)) (PACK sz1 0);
                bp1 = PREV_BLKP (mem s4) bp
            in (insert_node s4 bp1 sz1, bp1)))"

definition extend_heap :: "heap \<Rightarrow> word32 \<Rightarrow> heap \<times> word32" where
  "extend_heap s words =
     (let sz = (if words mod 2 \<noteq> 0 then (words + 1) * WSIZE else words * WSIZE);
          (s1, bp) = mem_sbrk s sz
      in if bp = - 1 then (s1, NULL)
         else
           (let s2 = put s1 (HDRP bp) (PACK sz 0);
                s3 = put s2 (FTRP (mem s2) bp) (PACK sz 0);
                s4 = put s3 (HDRP (NEXT_BLKP (mem s3) bp)) (PACK 0 1)
            in coalesce s4 bp))"

definition place :: "heap \<Rightarrow> word32 \<Rightarrow> word32 \<Rightarrow> heap" where
  "place s bp asize =
     (let csize = GET_SIZE (mem s) (HDRP bp);
          s1 = delete_node s bp
      in if csize - asize \<ge> 2 * DSIZE then
           (let s2 = put s1 (HDRP bp) (PACK asize 1);
                s3 = put s2 (FTRP (mem s2) bp) (PACK asize 1);
                bp1 = NEXT_BLKP (mem s3) bp;
                s4 = put s3 (HDRP bp1) (PACK (csize - asize) 0);
                s5 = put s4 (FTRP (mem s4) bp1) (PACK (csize - asize) 0)
            in insert_node s5 bp1 (csize - asize))
         else
           (let s2 = put s1 (HDRP bp) (PACK csize 1)
            in put s2 (FTRP (mem s2) bp) (PACK csize 1)))"

subsection \<open>Best fit within a class\<close>

text \<open>
  The inner loop of \<^verbatim>\<open>find_fit\<close> follows successor pointers until it meets the null
  pointer; on a cyclic list it never returns, which is the value \<open>None\<close>. \<open>Inl bp\<close> is
  the early return of an exact fit, \<open>Inr (best_bp, min_diff)\<close> the state of the two
  locals when the list ends.
\<close>

partial_function (option) find_fit_list ::
  "memory \<Rightarrow> word32 \<Rightarrow> word32 \<Rightarrow> word32 \<Rightarrow> word32 \<Rightarrow> (word32 + word32 \<times> word32) option" where
  "find_fit_list m asize bp best_bp min_diff =
     (if bp = NULL then Some (Inr (best_bp, min_diff))
      else
        (let curr_size = GET_SIZE m (HDRP bp)
         in if asize \<le> curr_size then
              (let diff = curr_size - asize
               in if diff = 0 then Some (Inl bp)
                  else if diff < min_diff then find_fit_list m asize (GET_SUCC m bp) bp diff
                  else find_fit_list m asize (GET_SUCC m bp) best_bp min_diff)
            else find_fit_list m asize (GET_SUCC m bp) best_bp min_diff))"

function find_fit_from :: "heap \<Rightarrow> word32 \<Rightarrow> nat \<Rightarrow> word32 \<Rightarrow> word32 \<Rightarrow> word32 option" where
  "find_fit_from s asize i best_bp min_diff =
     (if i < LIST_LIMIT then
        (case find_fit_list (mem s) asize (seg_get s i) best_bp min_diff of
           None \<Rightarrow> None
         | Some (Inl bp) \<Rightarrow> Some bp
         | Some (Inr (best_bp1, min_diff1)) \<Rightarrow>
             if best_bp1 \<noteq> NULL then Some best_bp1
             else find_fit_from s asize (i + 1) best_bp1 min_diff1)
      else Some best_bp)"
  by pat_completeness auto
termination
  by (relation "measure (\<lambda>(s, asize, i, best_bp, min_diff). LIST_LIMIT - i)") auto

definition find_fit :: "heap \<Rightarrow> word32 \<Rightarrow> word32 option" where
  "find_fit s asize = find_fit_from s asize (get_list_index asize) NULL (- 1)"

subsection \<open>The public interface\<close>

text \<open>The rounding of a request, written the same way in \<^verbatim>\<open>mm_malloc\<close> and \<^verbatim>\<open>mm_realloc\<close>.\<close>

definition adjusted_size :: "word32 \<Rightarrow> word32" where
  "adjusted_size sz =
     (if sz \<le> DSIZE then 2 * DSIZE
      else DSIZE * ((sz + DSIZE + (DSIZE - 1)) div DSIZE))"

definition mm_init :: "heap \<Rightarrow> heap \<times> int" where
  "mm_init s =
     (let (s0, p) = mem_sbrk s (of_nat LIST_LIMIT * 4 + 4 * WSIZE);
          s1 = s0\<lparr>seg_list := p\<rparr>
      in if p = - 1 then (s1, - 1)
         else
           (let s2 = fold (\<lambda>i t. seg_set t i NULL) [0..<LIST_LIMIT] s1;
                prologue_ptr = seg_list s2 + of_nat LIST_LIMIT * 4;
                s3 = put s2 prologue_ptr 0;
                s4 = put s3 (prologue_ptr + 1 * WSIZE) (PACK DSIZE 1);
                s5 = put s4 (prologue_ptr + 2 * WSIZE) (PACK DSIZE 1);
                s6 = put s5 (prologue_ptr + 3 * WSIZE) (PACK 0 1);
                (s7, bp) = extend_heap s6 (CHUNKSIZE div WSIZE)
            in if bp = NULL then (s7, - 1) else (s7, 0)))"

definition mm_malloc :: "heap \<Rightarrow> word32 \<Rightarrow> (heap \<times> word32) option" where
  "mm_malloc s sz =
     (if sz = 0 then Some (s, NULL)
      else
        (let asize = adjusted_size sz
         in case find_fit s asize of
              None \<Rightarrow> None
            | Some bp \<Rightarrow>
                if bp \<noteq> NULL then Some (place s bp asize, bp)
                else
                  (let extendsize = max asize CHUNKSIZE;
                       (s1, bp1) = extend_heap s (extendsize div WSIZE)
                   in if bp1 = NULL then Some (s1, NULL)
                      else Some (place s1 bp1 asize, bp1))))"

definition mm_free :: "heap \<Rightarrow> word32 \<Rightarrow> heap" where
  "mm_free s ptr =
     (if ptr = NULL then s
      else
        (let sz = GET_SIZE (mem s) (HDRP ptr);
             s1 = put s (HDRP ptr) (PACK sz 0);
             s2 = put s1 (FTRP (mem s1) ptr) (PACK sz 0)
         in fst (coalesce s2 ptr)))"

text \<open>\<^verbatim>\<open>memcpy(dst, src, n)\<close> on regions that do not overlap.\<close>

definition memcpy :: "memory \<Rightarrow> word32 \<Rightarrow> word32 \<Rightarrow> word32 \<Rightarrow> memory" where
  "memcpy m dst src n = (\<lambda>a. if a - dst < n then m (src + (a - dst)) else m a)"

definition mm_realloc :: "heap \<Rightarrow> word32 \<Rightarrow> word32 \<Rightarrow> (heap \<times> word32) option" where
  "mm_realloc s ptr sz =
     (if ptr = NULL then mm_malloc s sz
      else if sz = 0 then Some (mm_free s ptr, NULL)
      else
        (let old_size = GET_SIZE (mem s) (HDRP ptr);
             new_size = adjusted_size sz
         in if new_size \<le> old_size then Some (s, ptr)
            else
              (let next_bp = NEXT_BLKP (mem s) ptr;
                   next_alloc = GET_ALLOC (mem s) (HDRP next_bp);
                   next_size = GET_SIZE (mem s) (HDRP next_bp);
                   combine_size = old_size + next_size
               in if next_alloc = 0 \<and> combine_size \<ge> new_size then
                    (let s1 = delete_node s next_bp;
                         s2 = put s1 (HDRP ptr) (PACK combine_size 1);
                         s3 = put s2 (FTRP (mem s2) ptr) (PACK combine_size 1)
                     in Some (s3, ptr))
                  else if next_size = 0 then
                    (let extend_needed = new_size - old_size;
                         (s1, r) = mem_sbrk s extend_needed
                     in if r = - 1 then Some (s1, NULL)
                        else
                          (let s2 = put s1 (HDRP ptr) (PACK new_size 1);
                               s3 = put s2 (FTRP (mem s2) ptr) (PACK new_size 1);
                               s4 = put s3 (HDRP (NEXT_BLKP (mem s3) ptr)) (PACK 0 1)
                           in Some (s4, ptr)))
                  else
                    (case mm_malloc s sz of
                       None \<Rightarrow> None
                     | Some (s1, newptr) \<Rightarrow>
                         if newptr = NULL then Some (s1, NULL)
                         else
                           (let s2 = s1\<lparr>mem := memcpy (mem s1) newptr ptr (old_size - DSIZE)\<rparr>
                            in Some (mm_free s2 ptr, newptr))))))"

subsection \<open>The consistency checker\<close>

text \<open>
  Every \<^verbatim>\<open>exit(1)\<close> of \<^verbatim>\<open>mm_check\<close> and \<^verbatim>\<open>checkblock\<close> is an error value. The walk over the
  blocks and the walk along a free list need not end on a corrupted heap: they are
  partial functions, with \<open>None\<close> for a walk that never returns. \<^verbatim>\<open>verbose\<close> is 0, so
  \<^verbatim>\<open>printblock\<close> is never called.
\<close>

datatype check_error =
    BadPrologue
  | NotAligned word32
  | HeaderFooterMismatch word32
  | NotCoalesced word32
  | BadEpilogue
  | OutOfBounds word32 nat
  | AllocatedInList word32 nat
  | PrevInconsistent word32
  | CountMismatch int int

definition checkblock :: "memory \<Rightarrow> word32 \<Rightarrow> check_error option" where
  "checkblock m bp =
     (if unat bp mod 8 \<noteq> 0 then Some (NotAligned bp)
      else if GET m (HDRP bp) \<noteq> GET m (FTRP m bp) then Some (HeaderFooterMismatch bp)
      else None)"

partial_function (option) check_heap ::
  "memory \<Rightarrow> word32 \<Rightarrow> int \<Rightarrow> (check_error + word32 \<times> int) option" where
  "check_heap m bp free_count =
     (if GET_SIZE m (HDRP bp) > 0 then
        (if checkblock m bp \<noteq> None then Some (Inl (the (checkblock m bp)))
         else if GET_ALLOC m (HDRP bp) = 0 \<and> GET_ALLOC m (HDRP (NEXT_BLKP m bp)) = 0
           then Some (Inl (NotCoalesced bp))
         else check_heap m (NEXT_BLKP m bp)
                (if GET_ALLOC m (HDRP bp) = 0 then free_count + 1 else free_count))
      else Some (Inr (bp, free_count)))"

partial_function (option) check_list ::
  "heap \<Rightarrow> nat \<Rightarrow> word32 \<Rightarrow> word32 \<Rightarrow> int \<Rightarrow> (check_error + int) option" where
  "check_list s i cur prev free_count =
     (if cur \<noteq> NULL then
        (if cur < mem_heap_lo s \<or> cur > mem_heap_hi s then Some (Inl (OutOfBounds cur i))
         else if GET_ALLOC (mem s) (HDRP cur) \<noteq> 0 then Some (Inl (AllocatedInList cur i))
         else if prev \<noteq> NULL \<and> GET_PRED (mem s) cur \<noteq> prev
           then Some (Inl (PrevInconsistent cur))
         else check_list s i (GET_SUCC (mem s) cur) cur (free_count + 1))
      else Some (Inr free_count))"

function check_lists :: "heap \<Rightarrow> nat \<Rightarrow> int \<Rightarrow> (check_error + int) option" where
  "check_lists s i free_count =
     (if i < LIST_LIMIT then
        (case check_list s i (seg_get s i) NULL free_count of
           None \<Rightarrow> None
         | Some (Inl e) \<Rightarrow> Some (Inl e)
         | Some (Inr free_count1) \<Rightarrow> check_lists s (i + 1) free_count1)
      else Some (Inr free_count))"
  by pat_completeness auto
termination
  by (relation "measure (\<lambda>(s, i, free_count). LIST_LIMIT - i)") auto

definition mm_check :: "heap \<Rightarrow> (check_error + int) option" where
  "mm_check s =
     (let heap_start = seg_list s + of_nat LIST_LIMIT * 4 + 2 * WSIZE
      in if GET_SIZE (mem s) (HDRP heap_start) \<noteq> DSIZE \<or> GET_ALLOC (mem s) (HDRP heap_start) = 0
         then Some (Inl BadPrologue)
         else
           (case check_heap (mem s) heap_start 0 of
              None \<Rightarrow> None
            | Some (Inl e) \<Rightarrow> Some (Inl e)
            | Some (Inr (bp, free_count_by_heap)) \<Rightarrow>
                if GET_SIZE (mem s) (HDRP bp) \<noteq> 0 \<or> GET_ALLOC (mem s) (HDRP bp) = 0
                then Some (Inl BadEpilogue)
                else
                  (case check_lists s 0 0 of
                     None \<Rightarrow> None
                   | Some (Inl e) \<Rightarrow> Some (Inl e)
                   | Some (Inr free_count_by_list) \<Rightarrow>
                       if free_count_by_heap \<noteq> free_count_by_list
                       then Some (Inl (CountMismatch free_count_by_heap free_count_by_list))
                       else Some (Inr 1))))"

section \<open>Abstractions of the heap\<close>

subsection \<open>Free lists as lists of pointers\<close>

text \<open>
  \<open>succ_chain m p bs\<close>: following successor pointers from \<open>p\<close> visits exactly the blocks
  \<open>bs\<close> and then reaches the null pointer.
\<close>

fun succ_chain :: "memory \<Rightarrow> word32 \<Rightarrow> word32 list \<Rightarrow> bool" where
  "succ_chain m p [] = (p = NULL)"
| "succ_chain m p (b # bs) = (p = b \<and> b \<noteq> NULL \<and> succ_chain m (GET_SUCC m b) bs)"

definition sized :: "memory \<Rightarrow> word32 list \<Rightarrow> (word32 \<times> word32) list" where
  "sized m bs = map (\<lambda>b. (b, GET_SIZE m (HDRP b))) bs"

text \<open>The loop body of \<^verbatim>\<open>find_fit\<close> run over a list of blocks with their sizes.\<close>

fun scan_class :: "word32 \<Rightarrow> (word32 \<times> word32) list \<Rightarrow> word32 \<Rightarrow> word32
    \<Rightarrow> word32 + word32 \<times> word32" where
  "scan_class asize [] best_bp min_diff = Inr (best_bp, min_diff)"
| "scan_class asize ((bp, curr_size) # L) best_bp min_diff =
     (if asize \<le> curr_size then
        (if curr_size - asize = 0 then Inl bp
         else if curr_size - asize < min_diff then scan_class asize L bp (curr_size - asize)
         else scan_class asize L best_bp min_diff)
      else scan_class asize L best_bp min_diff)"

text \<open>
  The search as the specification words it. A candidate of a class is a block of size at
  least \<open>asize\<close>. Within a class an exact fit is returned at once; otherwise the
  candidate with the least surplus is returned when the class ends; a class without a
  candidate passes the search on to the next class; no fit in any class is the null
  pointer.
\<close>

definition candidates :: "word32 \<Rightarrow> (word32 \<times> word32) list \<Rightarrow> (word32 \<times> word32) list" where
  "candidates asize L = filter (\<lambda>(b, sz). asize \<le> sz) L"

abbreviation surplus :: "word32 \<Rightarrow> word32 \<times> word32 \<Rightarrow> word32" where
  "surplus asize \<equiv> (\<lambda>(b, sz). sz - asize)"

definition class_choice :: "word32 \<Rightarrow> (word32 \<times> word32) list \<Rightarrow> word32 option" where
  "class_choice asize L =
     (case find (\<lambda>(b, sz). sz - asize = 0) (candidates asize L) of
        Some (b, sz) \<Rightarrow> Some b
      | None \<Rightarrow>
          if candidates asize L = [] then None
          else Some (fst (arg_min_list (surplus asize) (candidates asize L))))"

fun spec_find_fit :: "word32 \<Rightarrow> (word32 \<times> word32) list list \<Rightarrow> word32" where
  "spec_find_fit asize [] = NULL"
| "spec_find_fit asize (L # Ls) =
     (case class_choice asize L of Some b \<Rightarrow> b | None \<Rightarrow> spec_find_fit asize Ls)"

subsection \<open>What the checker audits\<close>

text \<open>
  \<open>heap_walk m bp bs e\<close>: stepping from \<open>bp\<close> by the size in each header visits the blocks
  \<open>bs\<close> and stops at \<open>e\<close>, the first block pointer whose header has size 0.
\<close>

fun heap_walk :: "memory \<Rightarrow> word32 \<Rightarrow> word32 list \<Rightarrow> word32 \<Rightarrow> bool" where
  "heap_walk m bp [] e = (bp = e \<and> GET_SIZE m (HDRP bp) = 0)"
| "heap_walk m bp (b # bs) e =
     (bp = b \<and> GET_SIZE m (HDRP b) \<noteq> 0 \<and> heap_walk m (NEXT_BLKP m b) bs e)"

definition is_free :: "memory \<Rightarrow> word32 \<Rightarrow> bool" where
  "is_free m bp = (GET_ALLOC m (HDRP bp) = 0)"

definition block_audit :: "memory \<Rightarrow> word32 \<Rightarrow> bool" where
  "block_audit m bp =
     (unat bp mod 8 = 0 \<and> GET m (HDRP bp) = GET m (FTRP m bp)
      \<and> \<not> (is_free m bp \<and> is_free m (NEXT_BLKP m bp)))"

fun pred_chain :: "memory \<Rightarrow> word32 \<Rightarrow> word32 list \<Rightarrow> bool" where
  "pred_chain m prev [] = True"
| "pred_chain m prev (c # L) = ((prev \<noteq> NULL \<longrightarrow> GET_PRED m c = prev) \<and> pred_chain m c L)"

definition list_audit :: "heap \<Rightarrow> word32 \<Rightarrow> word32 list \<Rightarrow> bool" where
  "list_audit s head L =
     (succ_chain (mem s) head L
      \<and> (\<forall>c \<in> set L. mem_heap_lo s \<le> c \<and> c \<le> mem_heap_hi s \<and> is_free (mem s) c)
      \<and> pred_chain (mem s) NULL L)"

definition audits :: "heap \<Rightarrow> word32 list \<Rightarrow> word32 \<Rightarrow> word32 list list \<Rightarrow> bool" where
  "audits s B e Ls =
     (let heap_start = seg_list s + 88
      in GET_SIZE (mem s) (HDRP heap_start) = 8 \<and> \<not> is_free (mem s) heap_start
         \<and> heap_walk (mem s) heap_start B e
         \<and> (\<forall>b \<in> set B. block_audit (mem s) b)
         \<and> \<not> is_free (mem s) e
         \<and> length Ls = LIST_LIMIT
         \<and> (\<forall>i \<in> {..<LIST_LIMIT}. list_audit s (seg_get s i) (Ls ! i))
         \<and> length (filter (is_free (mem s)) B) = length (concat Ls))"

subsection \<open>The heap as a sequence of blocks\<close>

text \<open>
  A block of the abstract heap is its payload address, its total size and its allocated
  bit; addresses and sizes are natural numbers below \<open>2^32\<close>, and \<open>W\<close> turns one into the
  machine word.
\<close>

type_synonym block = "nat \<times> nat \<times> bool"

definition W :: "nat \<Rightarrow> word32" where
  "W n = of_nat n"

definition tag :: "nat \<Rightarrow> bool \<Rightarrow> word32" where
  "tag n al = PACK (W n) (if al then 1 else 0)"

definition cls :: "nat \<Rightarrow> nat" where
  "cls n = get_list_index (W n)"

text \<open>\<open>contig a B e\<close>: the blocks \<open>B\<close> tile the addresses from \<open>a\<close> to \<open>e\<close>.\<close>

fun contig :: "nat \<Rightarrow> block list \<Rightarrow> nat \<Rightarrow> bool" where
  "contig a [] e = (a = e)"
| "contig a ((p, n, al) # B) e = (p = a \<and> 16 \<le> n \<and> 8 dvd n \<and> contig (a + n) B e)"

definition tagged :: "memory \<Rightarrow> block \<Rightarrow> bool" where
  "tagged m b =
     (case b of (p, n, al) \<Rightarrow> GET m (W (p - 4)) = tag n al \<and> GET m (W (p + n - 8)) = tag n al)"

definition heap_blocks :: "heap \<Rightarrow> block list \<Rightarrow> bool" where
  "heap_blocks s B =
     (let lo = unat (seg_list s); e = unat (mem_brk s)
      in 8 dvd lo \<and> contig (lo + 96) B e
         \<and> GET (mem s) (W (lo + 84)) = tag 8 True \<and> GET (mem s) (W (lo + 88)) = tag 8 True
         \<and> GET (mem s) (W (e - 4)) = tag 0 True
         \<and> (\<forall>b \<in> set B. tagged (mem s) b))"

text \<open>
  \<open>dseg m prev p L q\<close>: a segment of a doubly linked list. The nodes \<open>L\<close> start at pointer
  \<open>p\<close>, the predecessor link of the first is \<open>prev\<close>, and the successor link of the last
  is \<open>q\<close>.
\<close>

fun dseg :: "memory \<Rightarrow> word32 \<Rightarrow> word32 \<Rightarrow> nat list \<Rightarrow> word32 \<Rightarrow> bool" where
  "dseg m prev p [] q = (p = q)"
| "dseg m prev p (c # L) q =
     (p = W c \<and> GET m (W c) = prev \<and> dseg m (W c) (GET m (W (c + 4))) L q)"

definition hd_ptr :: "nat list \<Rightarrow> word32 \<Rightarrow> word32" where
  "hd_ptr L q = (case L of [] \<Rightarrow> q | c # _ \<Rightarrow> W c)"

definition last_ptr :: "word32 \<Rightarrow> nat list \<Rightarrow> word32" where
  "last_ptr prev L = (if L = [] then prev else W (last L))"

text \<open>Nodes whose link words lie in the address space and do not overlap.\<close>

definition nodes_sep :: "nat set \<Rightarrow> bool" where
  "nodes_sep N =
     ((\<forall>c \<in> N. 0 < c \<and> c + 8 \<le> 4294967296)
      \<and> (\<forall>c \<in> N. \<forall>d \<in> N. c \<noteq> d \<longrightarrow> c + 8 \<le> d \<or> d + 8 \<le> c))"

definition free_lists :: "heap \<Rightarrow> nat list list \<Rightarrow> bool" where
  "free_lists s Ls =
     (length Ls = LIST_LIMIT
      \<and> (\<forall>i \<in> {..<LIST_LIMIT}. dseg (mem s) NULL (GET (mem s) (W (unat (seg_list s) + 4 * i)))
                                   (Ls ! i) NULL))"

text \<open>Well-formed free lists whose nodes lie above the table and do not overlap.\<close>

definition lists_wf :: "heap \<Rightarrow> nat list list \<Rightarrow> bool" where
  "lists_wf s Ls =
     (free_lists s Ls \<and> distinct (concat Ls) \<and> nodes_sep (set (concat Ls))
      \<and> (\<forall>c \<in> set (concat Ls). unat (seg_list s) + 80 \<le> c)
      \<and> unat (seg_list s) + 80 \<le> 4294967296)"

text \<open>
  Every listed node is a free block of the heap, filed in the list of its size class,
  and no node is listed twice.
\<close>

definition listed_ok :: "block list \<Rightarrow> nat list list \<Rightarrow> bool" where
  "listed_ok B Ls =
     (distinct (concat Ls)
      \<and> (\<forall>i \<in> {..<length Ls}. \<forall>c \<in> set (Ls ! i).
            \<exists>b \<in> set B. fst b = c \<and> \<not> snd (snd b) \<and> cls (fst (snd b)) = i))"

definition all_listed :: "block list \<Rightarrow> nat list list \<Rightarrow> bool" where
  "all_listed B Ls = (\<forall>b \<in> set B. \<not> snd (snd b) \<longrightarrow> fst b \<in> set (concat Ls))"

fun no_adjacent_free :: "block list \<Rightarrow> bool" where
  "no_adjacent_free (b # c # B) = ((snd (snd b) \<or> snd (snd c)) \<and> no_adjacent_free (c # B))"
| "no_adjacent_free B = True"

definition heap_partial :: "heap \<Rightarrow> block list \<Rightarrow> nat list list \<Rightarrow> bool" where
  "heap_partial s B Ls = (heap_blocks s B \<and> free_lists s Ls \<and> listed_ok B Ls)"

definition heap_inv :: "heap \<Rightarrow> block list \<Rightarrow> nat list list \<Rightarrow> bool" where
  "heap_inv s B Ls = (heap_partial s B Ls \<and> all_listed B Ls \<and> no_adjacent_free B)"

definition ls_remove :: "nat list list \<Rightarrow> nat \<Rightarrow> nat \<Rightarrow> nat list list" where
  "ls_remove Ls i c = Ls[i := remove1 c (Ls ! i)]"

definition ls_insert :: "nat list list \<Rightarrow> nat \<Rightarrow> nat \<Rightarrow> nat list list" where
  "ls_insert Ls i c = Ls[i := c # Ls ! i]"

text \<open>
  The outcome of coalescing the free block \<open>(a, n)\<close> between the blocks \<open>B1\<close> before it
  and \<open>B2\<close> after it, by the four cases of the specification: the merged block list and
  the free lists with the absorbed neighbours removed and the merged block inserted at
  the head of the list of its combined size.
\<close>

definition coalesced ::
  "block list \<Rightarrow> nat \<Rightarrow> nat \<Rightarrow> block list \<Rightarrow> nat list list \<Rightarrow> block list \<times> nat list list" where
  "coalesced B1 a n B2 Ls =
     (let prev_free = (B1 \<noteq> [] \<and> \<not> snd (snd (last B1)));
          next_free = (B2 \<noteq> [] \<and> \<not> snd (snd (hd B2)));
          (a0, n0) = (fst (last B1), fst (snd (last B1)));
          n2 = fst (snd (hd B2))
      in if \<not> prev_free \<and> \<not> next_free then
           (B1 @ (a, n, False) # B2, ls_insert Ls (cls n) a)
         else if \<not> prev_free \<and> next_free then
           (B1 @ (a, n + n2, False) # tl B2,
            ls_insert (ls_remove Ls (cls n2) (a + n)) (cls (n + n2)) a)
         else if prev_free \<and> \<not> next_free then
           (butlast B1 @ (a0, n0 + n, False) # B2,
            ls_insert (ls_remove Ls (cls n0) a0) (cls (n0 + n)) a0)
         else
           (butlast B1 @ (a0, n0 + n + n2, False) # tl B2,
            ls_insert (ls_remove (ls_remove Ls (cls n0) a0) (cls n2) (a + n))
              (cls (n0 + n + n2)) a0))"

text \<open>
  The address and the size of the block that this merge produces: it starts at the
  predecessor if the predecessor is free, and its size is the sum of the sizes merged.
\<close>

definition merged :: "block list \<Rightarrow> nat \<Rightarrow> nat \<Rightarrow> block list \<Rightarrow> nat \<times> nat" where
  "merged B1 a n B2 =
     (let prev_free = (B1 \<noteq> [] \<and> \<not> snd (snd (last B1)));
          next_free = (B2 \<noteq> [] \<and> \<not> snd (snd (hd B2)))
      in (if prev_free then fst (last B1) else a,
          (if prev_free then fst (snd (last B1)) else 0) + n
            + (if next_free then fst (snd (hd B2)) else 0)))"

text \<open>\<open>same_outside A m m'\<close>: the memories agree on every byte whose address is not in \<open>A\<close>.\<close>

definition same_outside :: "nat set \<Rightarrow> memory \<Rightarrow> memory \<Rightarrow> bool" where
  "same_outside A m m' = (\<forall>z < 4294967296. z \<notin> A \<longrightarrow> m' (W z) = m (W z))"

text \<open>The addresses of the header and footer words of the heap.\<close>

definition tag_slots :: "heap \<Rightarrow> block list \<Rightarrow> nat set" where
  "tag_slots s B =
     {unat (seg_list s) + 84, unat (seg_list s) + 88, unat (mem_brk s) - 4}
     \<union> (\<Union>b \<in> set B. {fst b - 4, fst b + fst (snd b) - 8})"

text \<open>The bytes of the list table and of the link words of the listed nodes.\<close>

definition link_bytes :: "heap \<Rightarrow> nat list list \<Rightarrow> nat set" where
  "link_bytes s Ls =
     {unat (seg_list s) ..< unat (seg_list s) + 80} \<union> (\<Union>c \<in> set (concat Ls). {c ..< c + 8})"


section \<open>Example heaps\<close>

text \<open>
  A provider with an empty heap at address 4096 and room for 20 MB, the heap after
  \<^verbatim>\<open>mm_init\<close>, and the heaps after one further \<^verbatim>\<open>mm_malloc\<close> of 24 and of 4088 bytes.
\<close>

definition fresh_heap :: heap where
  "fresh_heap = \<lparr>mem = (\<lambda>_. 0), seg_list = 0, mem_heap_lo = 4096, mem_brk = 4096,
                  mem_max_addr = 20975616\<rparr>"

definition heap0 :: heap where
  "heap0 = fst (mm_init fresh_heap)"

definition heap1 :: heap where
  "heap1 = fst (the (mm_malloc heap0 24))"

definition heap2 :: heap where
  "heap2 = fst (the (mm_malloc heap0 4088))"

definition puts :: "memory \<Rightarrow> (word32 \<times> word32) list \<Rightarrow> memory" where
  "puts m xs = fold (\<lambda>(p, v) m. PUT m p v) xs m"

definition mem0 :: memory where
  "mem0 = puts (\<lambda>_. 0)
      [(4096, 0), (4100, 0), (4104, 0), (4108, 0), (4112, 0), (4116, 0), (4120, 0), (4124, 0),
       (4128, 0), (4132, 0), (4136, 0), (4140, 0), (4144, 0), (4148, 0), (4152, 0), (4156, 0),
       (4160, 0), (4164, 0), (4168, 0), (4172, 0), (4176, 0), (4180, 9), (4184, 9), (4188, 1),
       (4188, 4096), (8280, 4096), (8284, 1), (4196, 0), (4192, 0), (4168, 4192)]"

text \<open>
  A table whose list 14 (sizes 129 to 256) holds three blocks, of 200, 136 and 160 bytes
  at 4200, 4400 and 4600, in this order; every other list is empty.
\<close>

definition three_free :: heap where
  "three_free = \<lparr>mem = puts (\<lambda>_. 0)
      [(4152, 4200), (4196, 200), (4204, 4400), (4396, 136), (4404, 4600), (4596, 160)],
     seg_list = 4096, mem_heap_lo = 4096, mem_brk = 8288, mem_max_addr = 20975616\<rparr>"

text \<open>
  The heap after \<^verbatim>\<open>mm_init\<close> with its only free block, of 4096 bytes and so of class 18,
  moved to the list of class 0.
\<close>

definition misfiled :: heap where
  "misfiled = seg_set (seg_set heap0 18 NULL) 0 4192"

text \<open>
  The free lists of the heap after \<^verbatim>\<open>mm_init\<close>, whose one free block at 4192 has 4096
  bytes, and of the heap after the \<^verbatim>\<open>mm_malloc\<close> of 24 bytes, whose free block at 4224 has
  4064 bytes: both blocks are of class 18.
\<close>

definition lists0 :: "nat list list" where
  "lists0 = replicate 18 [] @ [[4192], []]"

definition lists1 :: "nat list list" where
  "lists1 = replicate 18 [] @ [[4224], []]"

section \<open>Basic facts about memory words and sizes\<close>

lemma GET_PUT_same: "GET (PUT m p v) p = v"
  unfolding GET_def PUT_def
  apply simp
  apply (rule bit_word_eqI)
  subgoal for n
    apply (cases "n < 8"; cases "n < 16"; cases "n < 24")
           apply (auto simp add: bit_simps)
    done
  done

lemma w_negs: "(- 1 :: word32) = 4294967295" "(- 2 :: word32) = 4294967294"
  "(- 3 :: word32) = 4294967293"
  by simp_all

lemma unat_negs: "unat (- 1 :: word32) = 4294967295" "unat (- 2 :: word32) = 4294967294"
  "unat (- 3 :: word32) = 4294967293"
  by (simp_all only: w_negs) simp_all

text \<open>A word written at \<open>p\<close> leaves a word at \<open>q\<close> alone when the two do not overlap.\<close>

lemma GET_PUT_frame:
  assumes "4 \<le> unat (q - p)" "unat (q - p) \<le> 4294967292"
  shows "GET (PUT m p v) q = GET m q"
proof -
  have ne: "q + a \<noteq> p + b" if "unat (b - a) < 4 \<or> 4294967292 < unat (b - a)" for a b :: word32
  proof
    assume "q + a = p + b"
    then have "q - p = b - a" by (simp add: algebra_simps)
    with that assms show False by simp
  qed
  have "q \<noteq> p" "q \<noteq> p + 1" "q \<noteq> p + 2" "q \<noteq> p + 3"
    "q + 1 \<noteq> p" "q + 1 \<noteq> p + 1" "q + 1 \<noteq> p + 2" "q + 1 \<noteq> p + 3"
    "q + 2 \<noteq> p" "q + 2 \<noteq> p + 1" "q + 2 \<noteq> p + 2" "q + 2 \<noteq> p + 3"
    "q + 3 \<noteq> p" "q + 3 \<noteq> p + 1" "q + 3 \<noteq> p + 2" "q + 3 \<noteq> p + 3"
    using ne[of 0 0] ne[of 0 1] ne[of 0 2] ne[of 0 3]
      ne[of 1 0] ne[of 1 1] ne[of 1 2] ne[of 1 3]
      ne[of 2 0] ne[of 2 1] ne[of 2 2] ne[of 2 3]
      ne[of 3 0] ne[of 3 1] ne[of 3 2] ne[of 3 3]
    by (simp_all add: unat_negs)
  then show ?thesis
    unfolding GET_def PUT_def by simp
qed

text \<open>A byte outside the four written ones is unchanged.\<close>

lemma PUT_byte_other: "4 \<le> unat (x - p) \<Longrightarrow> PUT m p v x = m x"
  unfolding PUT_def by auto

lemma seven_mask: "(7::word32) = mask 3" and one_mask: "(1::word32) = mask 1"
  by (simp_all add: mask_eq_exp_minus_1)

lemma unat32_less: "unat (w::word32) < 4294967296"
  using unsigned_less[of w] by simp

lemma unat_add32: "unat ((a::word32) + b) = (unat a + unat b) mod 4294967296"
  by (simp add: unat_word_ariths)

lemma unat_8_mult_div: "unat (8 * ((w::word32) div 8)) = 8 * (unat w div 8)"
proof -
  have "unat w div 8 * 8 < 4294967296" using unat32_less[of w] by simp
  then show ?thesis
    by (simp add: unat_word_ariths unat_div)
qed

lemma and_not7_mult: "(w::word32) AND NOT 7 = 8 * (w div 8)"
proof -
  have "w AND NOT 7 = push_bit 3 (drop_bit 3 w)"
    unfolding seven_mask by (rule bit_word_eqI) (auto simp add: bit_simps)
  then show ?thesis
    by (simp add: drop_bit_eq_div push_bit_eq_mult)
qed

lemma unat_and_not7: "unat ((w::word32) AND NOT 7) = 8 * (unat w div 8)"
  by (simp only: and_not7_mult unat_8_mult_div)

lemma unat_and_1: "unat ((w::word32) AND 1) = unat w mod 2"
  unfolding one_mask by (simp add: unsigned_and_eq flip: take_bit_eq_mask)

lemma unat_GET_SIZE: "unat (GET_SIZE m p) = 8 * (unat (GET m p) div 8)"
  unfolding GET_SIZE_def by (rule unat_and_not7)

lemma GET_SIZE_dvd: "8 dvd unat (GET_SIZE m p)"
  by (simp only: unat_GET_SIZE) simp

lemma GET_SIZE_bound: "unat (GET_SIZE m p) \<le> 4294967288"
proof -
  have "8 dvd unat (GET_SIZE m p)" by (rule GET_SIZE_dvd)
  moreover have "unat (GET_SIZE m p) < 4294967296" by (rule unat32_less)
  ultimately show ?thesis by presburger
qed

subsection \<open>The rounded request size\<close>

lemma adjusted_size_else: "\<not> n \<le> 8 \<Longrightarrow> adjusted_size n = (n + 15) AND NOT 7"
proof -
  have "n + 8 + (8 - 1) = n + 15" by simp
  then show ?thesis if "\<not> n \<le> 8"
    using that by (simp only: adjusted_size_def and_not7_mult if_False)
qed

lemma adjusted_size_exact:
  assumes "unat n + 15 < 4294967296"
  shows "unat (adjusted_size n) = (if unat n \<le> 8 then 16 else 8 * ((unat n + 15) div 8))"
proof (cases "n \<le> 8")
  case True
  then show ?thesis by (simp add: adjusted_size_def word_le_nat_alt)
next
  case False
  have "unat (n + 15) = unat n + 15" using assms by (simp add: unat_add32)
  moreover have "\<not> unat n \<le> 8" using False by (simp add: word_le_nat_alt)
  ultimately show ?thesis using adjusted_size_else[OF False]
    by (simp only: unat_and_not7 if_False)
qed

section \<open>Tags, sizes and the provider\<close>

lemma and_not7_id: "8 dvd unat (w::word32) \<Longrightarrow> w AND NOT 7 = w"
  by (rule word_unat_eq_iff[THEN iffD2], subst unat_and_not7) simp

lemma and_1_zero: "8 dvd unat (w::word32) \<Longrightarrow> w AND 1 = 0"
proof -
  assume "8 dvd unat w"
  then have "unat w mod 2 = 0" by presburger
  then show ?thesis
    by (intro word_unat_eq_iff[THEN iffD2]) (simp only: unat_and_1 unsigned_0)
qed

lemma le1_cases: "(a::word32) \<le> 1 \<Longrightarrow> a = 0 \<or> a = 1"
  by (auto simp add: word_le_nat_alt word_unat_eq_iff)

lemma GET_SIZE_PACK: "8 dvd unat sz \<Longrightarrow> a \<le> 1 \<Longrightarrow> PACK sz a AND NOT 7 = sz"
proof -
  assume d: "8 dvd unat sz" and a: "a \<le> 1"
  have "a = 0 \<or> a = 1" using a by (rule le1_cases)
  then have "a AND NOT 7 = 0" by auto
  then show ?thesis
    unfolding PACK_def by (simp only: bit.conj_disj_distrib2 and_not7_id[OF d]) simp
qed

lemma GET_ALLOC_PACK: "8 dvd unat sz \<Longrightarrow> a \<le> 1 \<Longrightarrow> PACK sz a AND 1 = a"
proof -
  assume d: "8 dvd unat sz" and a: "a \<le> 1"
  have "a = 0 \<or> a = 1" using a by (rule le1_cases)
  then have "a AND 1 = a" by auto
  then show ?thesis
    unfolding PACK_def by (simp only: bit.conj_disj_distrib2 and_1_zero[OF d]) simp
qed

lemma unat_sub32: "unat ((x::word32) - y) = (if unat y \<le> unat x then unat x - unat y else unat x + 4294967296 - unat y)"
  by (simp add: unat_sub_if')

lemma adjusted_size_dvd: "8 dvd unat (adjusted_size n)"
proof (cases "n \<le> 8")
  case True then show ?thesis by (simp add: adjusted_size_def)
next
  case False show ?thesis by (simp only: adjusted_size_else[OF False] unat_and_not7) simp
qed

lemma adjusted_size_le:
  assumes "unat n + 8 \<le> unat (GET_SIZE m p)" "n \<noteq> 0"
  shows "adjusted_size n \<le> GET_SIZE m p"
proof -
  have d: "8 dvd unat (GET_SIZE m p)" by (rule GET_SIZE_dvd)
  have b: "unat (GET_SIZE m p) \<le> 4294967288" by (rule GET_SIZE_bound)
  have n0: "0 < unat n" using assms(2) by (simp add: unat_gt_0)
  have "unat (adjusted_size n) = (if unat n \<le> 8 then 16 else 8 * ((unat n + 15) div 8))"
    using assms(1) b by (intro adjusted_size_exact) linarith
  moreover have "(if unat n \<le> 8 then 16 else 8 * ((unat n + 15) div 8)) \<le> unat (GET_SIZE m p)"
    using d assms(1) n0 by (auto elim!: dvdE)
  ultimately show ?thesis by (simp add: word_le_nat_alt)
qed

lemma adjusted_size_wraps:
  assumes "4294967296 \<le> unat n + 15"
  shows "adjusted_size n = (n + 15) AND NOT 7" "adjusted_size n < 16" "adjusted_size n < n"
proof -
  have n8: "\<not> n \<le> 8" using assms by (simp add: word_le_nat_alt)
  have "unat n + 15 < 2 * 4294967296" using unat32_less[of n] by simp
  then have u: "unat (n + 15) = unat n + 15 - 4294967296" using assms
    by (simp add: unat_add32 mod_if)
  show e: "adjusted_size n = (n + 15) AND NOT 7" using n8 by (rule adjusted_size_else)
  have "unat ((n + 15) AND NOT 7) \<le> unat (n + 15)"
    by (simp only: unat_and_not7)
  then have "unat ((n + 15) AND NOT 7) < 16 \<and> unat ((n + 15) AND NOT 7) < unat n"
    using u unat32_less[of n] assms by linarith
  then show "adjusted_size n < 16" "adjusted_size n < n"
    by (simp_all only: e word_less_nat_alt) simp_all
qed

lemma mem_sbrk_fail: "incr \<noteq> 0 \<Longrightarrow> unat (mem_brk s) + unat incr \<le> unat (mem_max_addr s) \<Longrightarrow> mem_brk s \<noteq> - 1"
proof
  assume i: "incr \<noteq> 0" and ok: "unat (mem_brk s) + unat incr \<le> unat (mem_max_addr s)"
    and "mem_brk s = - 1"
  then have "unat (mem_brk s) = 4294967295" by (simp add: unat_negs)
  moreover have "0 < unat incr" using i by (simp add: unat_gt_0)
  ultimately show False using ok unat32_less[of "mem_max_addr s"] by linarith
qed

lemma tail_tags:
  fixes m :: memory and ptr sz :: word32
  assumes d: "8 dvd unat sz" and n8: "8 \<le> unat sz"
  defines "m2 \<equiv> PUT m (ptr - 4) (PACK sz 1)"
  defines "m3 \<equiv> PUT m2 (ptr + sz - 8) (PACK sz 1)"
  defines "m4 \<equiv> PUT m3 (ptr + sz - 4) (PACK 0 1)"
  shows "FTRP m2 ptr = ptr + sz - 8" "NEXT_BLKP m3 ptr = ptr + sz"
    "GET m4 (ptr - 4) = PACK sz 1" "GET m4 (ptr + sz - 8) = PACK sz 1" "GET m4 (ptr + sz - 4) = PACK 0 1"
proof -
  have nb: "unat sz \<le> 4294967288" using d unat32_less[of sz] by presburger
  have gs: "PACK sz 1 AND NOT 7 = sz" by (rule GET_SIZE_PACK[OF d]) simp
  have e3: "ptr - 4 - (ptr + sz - 4) = - sz" by simp
  have e4: "ptr - 4 - (ptr + sz - 8) = 4 - sz" by simp
  have e5: "ptr + sz - 8 - (ptr + sz - 4) = - 4" by simp
  have u3: "unat (- sz) = 4294967296 - unat sz" using n8 unat_sub32[of 0 sz] by simp
  have u4: "unat (4 - sz) = 4294967300 - unat sz" using n8 unat_sub32[of 4 sz] by simp
  have u5: "unat (- 4 :: word32) = 4294967292" by simp
  have f3: "GET (PUT mm (ptr + sz - 4) v) (ptr - 4) = GET mm (ptr - 4)" for mm v
    by (rule GET_PUT_frame; simp only: e3 u3) (use n8 nb in linarith)+
  have f4: "GET (PUT mm (ptr + sz - 8) v) (ptr - 4) = GET mm (ptr - 4)" for mm v
    by (rule GET_PUT_frame; simp only: e4 u4) (use n8 nb in linarith)+
  have f5: "GET (PUT mm (ptr + sz - 4) v) (ptr + sz - 8) = GET mm (ptr + sz - 8)" for mm v
    by (rule GET_PUT_frame; simp only: e5 u5)
  show "FTRP m2 ptr = ptr + sz - 8"
    by (simp only: FTRP_def HDRP_def GET_SIZE_def m2_def GET_PUT_same gs)
  show "NEXT_BLKP m3 ptr = ptr + sz"
    by (simp only: NEXT_BLKP_def GET_SIZE_def m3_def m2_def f4 GET_PUT_same gs)
  show "GET m4 (ptr - 4) = PACK sz 1"
    by (simp only: m4_def m3_def m2_def f3 f4 GET_PUT_same)
  show "GET m4 (ptr + sz - 8) = PACK sz 1"
    by (simp only: m4_def m3_def f5 GET_PUT_same)
  show "GET m4 (ptr + sz - 4) = PACK 0 1"
    by (simp only: m4_def GET_PUT_same)
qed

section \<open>Running the allocator on the example heaps\<close>

lemmas macro_defs = GET_SIZE_def GET_ALLOC_def HDRP_def FTRP_def NEXT_BLKP_def PREV_BLKP_def
  GET_PRED_def GET_SUCC_def SET_PRED_def SET_SUCC_def seg_get_def seg_set_def seg_slot_def
  put_def PACK_def

lemma upt20: "[0..<20] = [0, 1, 2, 3, 4, 5, 6, 7, 8, 9, 10, 11, 12, 13, 14, 15, 16, 17, 18, 19]"
  by code_simp

lemma find_fit_list_NULL:
  "find_fit_list m asize NULL best_bp min_diff = Some (Inr (best_bp, min_diff))"
  by (subst find_fit_list.simps) simp

lemma find_fit_list_step:
  "bp \<noteq> NULL \<Longrightarrow> find_fit_list m asize bp best_bp min_diff =
        (let curr_size = GET_SIZE m (HDRP bp)
         in if asize \<le> curr_size then
              (let diff = curr_size - asize
               in if diff = 0 then Some (Inl bp)
                  else if diff < min_diff then find_fit_list m asize (GET_SUCC m bp) bp diff
                  else find_fit_list m asize (GET_SUCC m bp) best_bp min_diff)
            else find_fit_list m asize (GET_SUCC m bp) best_bp min_diff)"
  by (subst find_fit_list.simps) simp

lemmas exec_simps = mem_sbrk_def extend_heap_def coalesce_def insert_node_def delete_node_def
  place_def get_list_index_def macro_defs Let_def GET_PUT_same GET_PUT_frame split_def puts_def
  find_fit_def find_fit_from.simps find_fit_list_NULL find_fit_list_step adjusted_size_def

lemma mm_init_fresh:
  "mm_init fresh_heap = (\<lparr>mem = mem0, seg_list = 4096, mem_heap_lo = 4096, mem_brk = 8288,
                            mem_max_addr = 20975616\<rparr>, 0)"
  unfolding mm_init_def
  by (simp add: fresh_heap_def mem0_def upt20 exec_simps)

lemma heap0_eq:
  "heap0 = \<lparr>mem = mem0, seg_list = 4096, mem_heap_lo = 4096, mem_brk = 8288,
            mem_max_addr = 20975616\<rparr>"
  by (simp add: heap0_def mm_init_fresh)

lemma malloc_24:
  "mm_malloc heap0 24 =
     Some (\<lparr>mem = puts mem0 [(4168, 0), (4188, 33), (4216, 33), (4220, 4064), (8280, 4064),
                               (4228, 0), (4224, 0), (4168, 4224)],
            seg_list = 4096, mem_heap_lo = 4096, mem_brk = 8288, mem_max_addr = 20975616\<rparr>, 4192)"
  unfolding mm_malloc_def
  by (simp add: heap0_eq mem0_def exec_simps)

lemma heap1_eq:
  "heap1 = \<lparr>mem = puts mem0 [(4168, 0), (4188, 33), (4216, 33), (4220, 4064), (8280, 4064),
                               (4228, 0), (4224, 0), (4168, 4224)],
            seg_list = 4096, mem_heap_lo = 4096, mem_brk = 8288, mem_max_addr = 20975616\<rparr>"
  by (simp add: heap1_def malloc_24)

lemma malloc_4088:
  "mm_malloc heap0 4088 =
     Some (\<lparr>mem = puts mem0 [(4168, 0), (4188, 4097), (8280, 4097)],
            seg_list = 4096, mem_heap_lo = 4096, mem_brk = 8288, mem_max_addr = 20975616\<rparr>, 4192)"
  unfolding mm_malloc_def
  by (simp add: heap0_eq mem0_def exec_simps)

lemma heap2_eq:
  "heap2 = \<lparr>mem = puts mem0 [(4168, 0), (4188, 4097), (8280, 4097)],
            seg_list = 4096, mem_heap_lo = 4096, mem_brk = 8288, mem_max_addr = 20975616\<rparr>"
  by (simp add: heap2_def malloc_4088)


lemma heap1_reads: "GET (mem heap1) 4188 = 33" "GET (mem heap1) 4220 = 4064"
  by (simp_all add: heap1_eq mem0_def puts_def GET_PUT_same GET_PUT_frame)

lemma find_fit_heap0_8: "find_fit heap0 8 = Some 4192"
  by (simp add: heap0_eq mem0_def exec_simps)

lemma ball_lessThan_20: "(\<forall>i \<in> {..<LIST_LIMIT}. P i) \<longleftrightarrow> (\<forall>i \<in> set [0..<20]. P i)"
  by auto

lemmas read_simps = mem0_def puts_def GET_PUT_same GET_PUT_frame


section \<open>The search for a fit\<close>

declare find_fit_from.simps [simp del]

lemma find_fit_list_scan:
  "succ_chain m p bs \<Longrightarrow>
   find_fit_list m asize p best_bp min_diff = Some (scan_class asize (sized m bs) best_bp min_diff)"
proof (induction bs arbitrary: p best_bp min_diff)
  case Nil
  then show ?case by (simp add: find_fit_list_NULL sized_def)
next
  case (Cons b bs)
  then have p: "p = b" "b \<noteq> NULL" and c: "succ_chain m (GET_SUCC m b) bs" by simp_all
  show ?case
    unfolding p(1)
    by (subst find_fit_list.simps) (simp add: p(2) Cons.IH[OF c] sized_def Let_def)
qed

lemma succ_chain_nonnull: "succ_chain m p bs \<Longrightarrow> b \<in> set bs \<Longrightarrow> b \<noteq> NULL"
  by (induction bs arbitrary: p) auto

text \<open>The first least element of a list, found from the left.\<close>

lemma arg_min_list_swap:
  fixes f :: "'a \<Rightarrow> 'b::linorder"
  shows "arg_min_list f (x # y # ys) = arg_min_list f ((if f y < f x then y else x) # ys)"
proof (cases ys)
  case Nil
  then show ?thesis by (auto simp add: Let_def)
next
  case (Cons z zs)
  then show ?thesis by (auto simp add: Let_def)
qed

lemma arg_min_list_le:
  fixes f :: "'a \<Rightarrow> 'b::linorder"
  shows "xs \<noteq> [] \<Longrightarrow> x \<in> set xs \<Longrightarrow> f (arg_min_list f xs) \<le> f x"
  by (metis arg_min_list_in f_arg_min_list_f Min_le finite_set imageI finite_imageI)

lemma scan_class_exact:
  "find (\<lambda>(b, sz). sz - asize = 0) (candidates asize L) = Some (b, sz) \<Longrightarrow>
   scan_class asize L best_bp min_diff = Inl b"
  by (induction L arbitrary: best_bp min_diff) (auto simp add: candidates_def split: if_splits)

lemma scan_class_min:
  "find (\<lambda>(b, sz). sz - asize = 0) (candidates asize L) = None \<Longrightarrow>
   scan_class asize L b0 (sz0 - asize) =
     Inr (fst (arg_min_list (surplus asize) ((b0, sz0) # candidates asize L)),
          surplus asize (arg_min_list (surplus asize) ((b0, sz0) # candidates asize L)))"
proof (induction L arbitrary: b0 sz0)
  case Nil
  then show ?case by (simp add: candidates_def)
next
  case (Cons x L)
  obtain b sz where x: "x = (b, sz)" by (cases x)
  show ?case
  proof (cases "asize \<le> sz")
    case False
    then show ?thesis using Cons by (simp add: x candidates_def)
  next
    case True
    then have ne: "sz - asize \<noteq> 0" and f: "find (\<lambda>(b, sz). sz - asize = 0) (candidates asize L) = None"
      using Cons.prems by (auto simp add: x candidates_def split: if_splits)
    have c: "candidates asize (x # L) = (b, sz) # candidates asize L"
      using True by (simp add: x candidates_def)
    show ?thesis
      unfolding c arg_min_list_swap[of "surplus asize" "(b0, sz0)" "(b, sz)"]
      using True ne Cons.IH[OF f] by (simp add: x)
  qed
qed

lemma surplus_less_max:
  fixes sz asize :: word32
  assumes "8 dvd unat sz" "asize \<le> sz"
  shows "sz - asize < - 1"
proof -
  have "unat sz \<le> 4294967288" using assms(1) unat32_less[of sz] by presburger
  moreover have "unat (sz - asize) = unat sz - unat asize"
    using assms(2) by (simp add: unat_sub)
  ultimately have "unat (sz - asize) < 4294967295" by linarith
  then show ?thesis by (simp add: word_less_nat_alt unat_negs)
qed

lemma scan_class_init:
  assumes "find (\<lambda>(b, sz). sz - asize = 0) (candidates asize L) = None"
    and "\<forall>x \<in> set L. 8 dvd unat (snd x)"
  shows "scan_class asize L NULL (- 1) =
     (if candidates asize L = [] then Inr (NULL, - 1)
      else Inr (fst (arg_min_list (surplus asize) (candidates asize L)),
                surplus asize (arg_min_list (surplus asize) (candidates asize L))))"
  using assms
proof (induction L)
  case Nil
  then show ?case by (simp add: candidates_def)
next
  case (Cons x L)
  obtain b sz where x: "x = (b, sz)" by (cases x)
  show ?case
  proof (cases "asize \<le> sz")
    case False
    then show ?thesis using Cons by (simp add: x candidates_def)
  next
    case True
    then have ne: "sz - asize \<noteq> 0" and f: "find (\<lambda>(b, sz). sz - asize = 0) (candidates asize L) = None"
      using Cons.prems by (auto simp add: x candidates_def split: if_splits)
    have c: "candidates asize (x # L) = (b, sz) # candidates asize L"
      using True by (simp add: x candidates_def)
    have "8 dvd unat sz" using Cons.prems(2) by (simp add: x)
    then have lt: "sz - asize < - 1" using True by (rule surplus_less_max)
    show ?thesis
      unfolding c using True ne lt scan_class_min[OF f, of b sz] by (simp add: x)
  qed
qed

lemma sized_dvd: "\<forall>x \<in> set (sized m bs). 8 dvd unat (snd x)"
  by (auto simp add: sized_def GET_SIZE_dvd)

lemma class_choice_in: "class_choice asize L = Some b \<Longrightarrow> b \<in> fst ` set (candidates asize L)"
proof -
  assume a: "class_choice asize L = Some b"
  show ?thesis
  proof (cases "find (\<lambda>(b, sz). sz - asize = 0) (candidates asize L)")
    case None
    with a have ne: "candidates asize L \<noteq> []"
      and b: "b = fst (arg_min_list (surplus asize) (candidates asize L))"
      by (auto simp add: class_choice_def split: if_splits)
    from arg_min_list_in[OF ne] show ?thesis unfolding b by (rule imageI)
  next
    case (Some y)
    then have "y \<in> set (candidates asize L)" by (auto simp add: find_Some_iff in_set_conv_nth)
    moreover have "b = fst y" using a Some by (auto simp add: class_choice_def split: prod.splits)
    ultimately show ?thesis by auto
  qed
qed

lemma class_choice_None: "class_choice asize L = None \<longleftrightarrow> candidates asize L = []"
  by (auto simp add: class_choice_def split: option.splits if_splits)

text \<open>One class of the search: the outcome of the loop is the choice of the specification.\<close>

lemma scan_class_choice:
  assumes "\<forall>x \<in> set L. 8 dvd unat (snd x)" and "\<forall>x \<in> set L. fst x \<noteq> NULL"
  shows "case scan_class asize L NULL (- 1) of
           Inl bp \<Rightarrow> class_choice asize L = Some bp
         | Inr (best_bp, min_diff) \<Rightarrow>
             (if best_bp \<noteq> NULL then class_choice asize L = Some best_bp
              else class_choice asize L = None \<and> min_diff = - 1)"
proof (cases "find (\<lambda>(b, sz). sz - asize = 0) (candidates asize L)")
  case None
  show ?thesis
  proof (cases "candidates asize L = []")
    case True
    then show ?thesis
      using None scan_class_init[OF None assms(1)] by (simp add: class_choice_def)
  next
    case False
    have c: "class_choice asize L = Some (fst (arg_min_list (surplus asize) (candidates asize L)))"
      using None False by (simp add: class_choice_def)
    from class_choice_in[OF c] assms(2)
    have "fst (arg_min_list (surplus asize) (candidates asize L)) \<noteq> NULL"
      by (auto simp add: candidates_def)
    then show ?thesis
      using False c scan_class_init[OF None assms(1)] by simp
  qed
next
  case (Some y)
  obtain b sz where y: "y = (b, sz)" by (cases y)
  show ?thesis
    using Some scan_class_exact[of asize L b sz] by (simp add: y class_choice_def)
qed

lemma find_fit_from_spec:
  assumes "length Ls = LIST_LIMIT"
    and "\<forall>j. i \<le> j \<and> j < LIST_LIMIT \<longrightarrow> succ_chain (mem s) (seg_get s j) (Ls ! j)"
    and "i \<le> LIST_LIMIT"
  shows "find_fit_from s asize i NULL (- 1) = Some (spec_find_fit asize (map (sized (mem s)) (drop i Ls)))"
  using assms(2,3)
proof (induction "LIST_LIMIT - i" arbitrary: i)
  case 0
  then have "i = LIST_LIMIT" by simp
  then show ?case using assms(1) by (subst find_fit_from.simps) simp
next
  case (Suc k)
  then have i: "i < LIST_LIMIT" by simp
  have ch: "succ_chain (mem s) (seg_get s i) (Ls ! i)" using Suc.prems i by simp
  have dr: "drop i Ls = Ls ! i # drop (Suc i) Ls"
    using i assms(1) by (simp add: Cons_nth_drop_Suc)
  have nn: "\<forall>x \<in> set (sized (mem s) (Ls ! i)). fst x \<noteq> NULL"
    using succ_chain_nonnull[OF ch] by (auto simp add: sized_def)
  have IH: "find_fit_from s asize (Suc i) NULL (- 1) =
      Some (spec_find_fit asize (map (sized (mem s)) (drop (Suc i) Ls)))"
    using Suc.hyps(2) Suc.prems i by (intro Suc.hyps(1)) auto
  note sc = scan_class_choice[OF sized_dvd nn, where asize = asize]
  show ?case
  proof (cases "scan_class asize (sized (mem s) (Ls ! i)) NULL (- 1)")
    case (Inl bp)
    then show ?thesis
      using sc i by (subst find_fit_from.simps) (simp add: find_fit_list_scan[OF ch] dr)
  next
    case (Inr r)
    obtain best_bp min_diff where r: "r = (best_bp, min_diff)" by (cases r)
    show ?thesis
      using sc i Inr IH
      by (subst find_fit_from.simps) (auto simp add: find_fit_list_scan[OF ch] dr r)
  qed
qed

lemma in_set_drop_nth: "x \<in> set (drop n xs) \<longleftrightarrow> (\<exists>i. n \<le> i \<and> i < length xs \<and> x = xs ! i)"
proof
  assume "x \<in> set (drop n xs)"
  then obtain j where "j < length (drop n xs)" "x = drop n xs ! j" by (auto simp add: in_set_conv_nth)
  then have "n \<le> n + j \<and> n + j < length xs \<and> x = xs ! (n + j)" by auto
  then show "\<exists>i. n \<le> i \<and> i < length xs \<and> x = xs ! i" by blast
next
  assume "\<exists>i. n \<le> i \<and> i < length xs \<and> x = xs ! i"
  then obtain i where i: "n \<le> i" "i < length xs" "x = xs ! i" by blast
  then have "i - n < length (drop n xs)" "drop n xs ! (i - n) = x" by auto
  then show "x \<in> set (drop n xs)" by (metis nth_mem)
qed

lemma spec_find_fit_NULL:
  assumes "\<forall>L \<in> set Lss. \<forall>x \<in> set L. fst x \<noteq> NULL"
  shows "spec_find_fit asize Lss = NULL \<longleftrightarrow> (\<forall>L \<in> set Lss. candidates asize L = [])"
  using assms
proof (induction Lss)
  case Nil
  then show ?case by simp
next
  case (Cons L Lss)
  show ?case
  proof (cases "class_choice asize L")
    case None
    then have "candidates asize L = []" by (simp add: class_choice_None)
    then show ?thesis using None Cons by simp
  next
    case (Some b)
    from class_choice_in[OF Some] Cons.prems have "b \<noteq> NULL"
      by (auto simp add: candidates_def)
    moreover have "candidates asize L \<noteq> []" using Some class_choice_None[of asize L] by auto
    ultimately show ?thesis using Some by simp
  qed
qed

lemma class_choice_min:
  assumes "class_choice asize L = Some b"
  shows "\<exists>sz. (b, sz) \<in> set L \<and> asize \<le> sz
           \<and> (\<forall>x \<in> set L. asize \<le> snd x \<longrightarrow> sz - asize \<le> snd x - asize)"
proof (cases "find (\<lambda>(b, sz). sz - asize = 0) (candidates asize L)")
  case None
  let ?r = "arg_min_list (surplus asize) (candidates asize L)"
  from assms None have ne: "candidates asize L \<noteq> []" and b: "b = fst ?r"
    by (auto simp add: class_choice_def split: if_splits)
  have r: "?r \<in> set (candidates asize L)" by (rule arg_min_list_in[OF ne])
  have "surplus asize ?r \<le> surplus asize x" if "x \<in> set (candidates asize L)" for x
    using that ne by (rule arg_min_list_le[rotated])
  then have "\<forall>x \<in> set L. asize \<le> snd x \<longrightarrow> snd ?r - asize \<le> snd x - asize"
    by (fastforce simp add: candidates_def split: prod.splits)
  moreover have "(b, snd ?r) \<in> set L" "asize \<le> snd ?r"
    using r b by (auto simp add: candidates_def)
  ultimately show ?thesis by blast
next
  case (Some y)
  obtain c sz where y: "y = (c, sz)" by (cases y)
  from Some have "y \<in> set (candidates asize L)" "sz - asize = 0"
    by (auto simp add: find_Some_iff in_set_conv_nth y)
  moreover have "b = c" using assms Some by (simp add: class_choice_def y)
  ultimately show ?thesis by (auto simp add: candidates_def y)
qed

lemma spec_find_fit_first:
  assumes "spec_find_fit asize Lss \<noteq> NULL"
  shows "\<exists>k < length Lss. (\<forall>j < k. candidates asize (Lss ! j) = [])
           \<and> class_choice asize (Lss ! k) = Some (spec_find_fit asize Lss)"
  using assms
proof (induction Lss)
  case Nil
  then show ?case by simp
next
  case (Cons L Lss)
  show ?case
  proof (cases "class_choice asize L")
    case None
    then have e: "candidates asize L = []" by (simp add: class_choice_None)
    from None Cons obtain k where k: "k < length Lss" "\<forall>j < k. candidates asize (Lss ! j) = []"
      "class_choice asize (Lss ! k) = Some (spec_find_fit asize Lss)" by auto
    have "\<forall>j < Suc k. candidates asize ((L # Lss) ! j) = []"
      using e k(2) by (auto simp add: nth_Cons split: nat.splits)
    then show ?thesis
      using k None by (intro exI[of _ "Suc k"]) simp
  next
    case (Some b)
    then show ?thesis by (intro exI[of _ 0]) simp
  qed
qed


section \<open>The checker on a heap that passes its audits\<close>

declare check_lists.simps [simp del]

lemma check_heap_walk:
  assumes "heap_walk m bp B e" and "\<forall>b \<in> set B. block_audit m b"
  shows "check_heap m bp free_count = Some (Inr (e, free_count + int (length (filter (is_free m) B))))"
  using assms
proof (induction B arbitrary: bp free_count)
  case Nil
  then have "bp = e" "GET_SIZE m (HDRP e) = 0" by auto
  then show ?case by (subst check_heap.simps) simp
next
  case (Cons b B)
  then have bp: "bp = b" and sz: "GET_SIZE m (HDRP b) \<noteq> 0"
    and w: "heap_walk m (NEXT_BLKP m b) B e" and a: "block_audit m b"
    and r: "\<forall>b \<in> set B. block_audit m b" by simp_all
  have gt: "GET_SIZE m (HDRP b) > 0" using sz by (simp add: word_greater_zero_iff)
  have cb: "checkblock m b = None" using a by (simp add: checkblock_def block_audit_def)
  have nf: "\<not> (GET_ALLOC m (HDRP b) = 0 \<and> GET_ALLOC m (HDRP (NEXT_BLKP m b)) = 0)"
    using a by (simp add: block_audit_def is_free_def)
  have fb: "is_free m b \<longleftrightarrow> GET_ALLOC m (HDRP b) = 0" by (simp add: is_free_def)
  show ?case
    unfolding bp
    apply (subst check_heap.simps)
    using gt cb nf Cons.IH[OF w r] by (auto simp add: fb)
qed

lemma check_list_audit:
  assumes "succ_chain (mem s) p L"
    and "\<forall>c \<in> set L. mem_heap_lo s \<le> c \<and> c \<le> mem_heap_hi s \<and> is_free (mem s) c"
    and "pred_chain (mem s) prev L"
  shows "check_list s i p prev free_count = Some (Inr (free_count + int (length L)))"
  using assms
proof (induction L arbitrary: p prev free_count)
  case Nil
  then show ?case by (subst check_list.simps) simp
next
  case (Cons c L)
  then have p: "p = c" "c \<noteq> NULL" and ch: "succ_chain (mem s) (GET_SUCC (mem s) c) L"
    and b: "\<not> c < mem_heap_lo s" "\<not> c > mem_heap_hi s" "GET_ALLOC (mem s) (HDRP c) = 0"
    and pr: "prev \<noteq> NULL \<longrightarrow> GET_PRED (mem s) c = prev" "pred_chain (mem s) c L"
    and r: "\<forall>c \<in> set L. mem_heap_lo s \<le> c \<and> c \<le> mem_heap_hi s \<and> is_free (mem s) c"
    by (simp_all add: is_free_def not_less)
  show ?case
    unfolding p(1)
    apply (subst check_list.simps)
    using p(2) b pr(1) Cons.IH[OF ch r pr(2)] by auto
qed

lemma check_lists_audit:
  assumes "length Ls = LIST_LIMIT"
    and "\<forall>j \<in> {..<LIST_LIMIT}. list_audit s (seg_get s j) (Ls ! j)"
    and "i \<le> LIST_LIMIT"
  shows "check_lists s i free_count = Some (Inr (free_count + int (length (concat (drop i Ls)))))"
  using assms(3)
proof (induction "LIST_LIMIT - i" arbitrary: i free_count)
  case 0
  then have "i = LIST_LIMIT" by simp
  then show ?case using assms(1) by (subst check_lists.simps) simp
next
  case (Suc k)
  then have i: "i < LIST_LIMIT" by simp
  have la: "list_audit s (seg_get s i) (Ls ! i)" using assms(2) i by simp
  have dr: "drop i Ls = Ls ! i # drop (Suc i) Ls"
    using i assms(1) by (simp add: Cons_nth_drop_Suc)
  have cl: "check_list s i (seg_get s i) NULL free_count = Some (Inr (free_count + int (length (Ls ! i))))"
    using la unfolding list_audit_def by (intro check_list_audit) simp_all
  have IH: "check_lists s (Suc i) fc = Some (Inr (fc + int (length (concat (drop (Suc i) Ls)))))" for fc
    using Suc.hyps(2) i by (intro Suc.hyps(1)) auto
  show ?case
    using i by (subst check_lists.simps) (simp add: cl IH dr)
qed

lemma heap_walk_end: "heap_walk m bp B e \<Longrightarrow> GET_SIZE m (HDRP e) = 0"
  by (induction B arbitrary: bp) auto


section \<open>Realloc in place: shrinking or equal requests\<close>

text \<open>
  Claim C4. For a non-null \<open>ptr\<close> to a block of total size \<open>old_size\<close> and a request
  \<open>n > 0\<close> with \<open>n + 8 \<le> old_size\<close>, \<^verbatim>\<open>mm_realloc(ptr, n)\<close> returns \<open>ptr\<close> and leaves the
  whole heap as it was: header, footer, size and payload of the block are unchanged and
  nothing is split.
\<close>

theorem realloc_shrink_in_place:
  assumes "ptr \<noteq> NULL" "n \<noteq> 0" "unat n + 8 \<le> unat (GET_SIZE (mem s) (HDRP ptr))"
  shows "mm_realloc s ptr n = Some (s, ptr)"
  using assms adjusted_size_le[OF assms(3) assms(2)]
  by (simp add: mm_realloc_def Let_def)

theorem realloc_shrink_in_place_witness:
  "(4192::word32) \<noteq> NULL \<and> (10::word32) \<noteq> 0
   \<and> unat (10::word32) + 8 \<le> unat (GET_SIZE (mem heap1) (HDRP 4192))
   \<and> mm_realloc heap1 4192 10 = Some (heap1, 4192)"
proof -
  have h: "unat (10::word32) + 8 \<le> unat (GET_SIZE (mem heap1) (HDRP 4192))"
    by (simp add: GET_SIZE_def HDRP_def heap1_reads)
  show ?thesis
    using realloc_shrink_in_place[of 4192 10 heap1] h by simp
qed

section \<open>The size rounding wraps around\<close>

text \<open>
  Claim C10. The rounding of a request in \<^verbatim>\<open>mm_malloc\<close> and \<^verbatim>\<open>mm_realloc\<close> is done in
  32-bit arithmetic without a guard: for every \<open>n\<close> with \<open>n + 15 > SIZE_MAX\<close> the adjusted
  size is \<open>((n + 15) mod 2^32) AND NOT 7\<close>, which is below 16 and below \<open>n\<close>. The request
  is not rejected: \<^verbatim>\<open>mm_malloc\<close> hands out whatever block \<^verbatim>\<open>find_fit\<close> finds for the wrapped
  size, and \<^verbatim>\<open>mm_realloc\<close> returns any block of at least 8 bytes unchanged.
\<close>

theorem size_rounding_wraps:
  assumes "2 ^ 32 \<le> unat n + 15"
  shows "adjusted_size n = (n + 15) AND NOT 7 \<and> adjusted_size n < 16 \<and> adjusted_size n < n
    \<and> (find_fit s (adjusted_size n) = Some bp \<and> bp \<noteq> NULL
         \<longrightarrow> mm_malloc s n = Some (place s bp ((n + 15) AND NOT 7), bp))
    \<and> (ptr \<noteq> NULL \<and> 8 \<le> GET_SIZE (mem t) (HDRP ptr) \<longrightarrow> mm_realloc t ptr n = Some (t, ptr))"
proof -
  have a: "4294967296 \<le> unat n + 15" using assms by simp
  note w = adjusted_size_wraps[OF a]
  have n0: "n \<noteq> 0" using a by auto
  have "adjusted_size n \<le> 8"
  proof -
    have "8 dvd unat (adjusted_size n)" by (rule adjusted_size_dvd)
    moreover have "unat (adjusted_size n) < 16" using w(2) by (simp add: word_less_nat_alt)
    ultimately have "unat (adjusted_size n) \<le> 8" by presburger
    then show ?thesis by (simp add: word_le_nat_alt)
  qed
  then have r: "8 \<le> GET_SIZE (mem t) (HDRP ptr) \<Longrightarrow> adjusted_size n \<le> GET_SIZE (mem t) (HDRP ptr)"
    by simp
  show ?thesis
    using w n0 r by (auto simp add: mm_malloc_def mm_realloc_def Let_def)
qed

theorem size_rounding_wraps_witness:
  "2 ^ 32 \<le> unat (4294967295::word32) + 15
   \<and> adjusted_size 4294967295 = 8
   \<and> find_fit heap0 (adjusted_size 4294967295) = Some 4192 \<and> (4192::word32) \<noteq> NULL
   \<and> mm_malloc heap0 4294967295 = Some (place heap0 4192 8, 4192)
   \<and> 8 \<le> GET_SIZE (mem heap1) (HDRP 4192)
   \<and> mm_realloc heap1 4192 4294967295 = Some (heap1, 4192)"
proof -
  have a: "2 ^ 32 \<le> unat (4294967295::word32) + 15" by simp
  have e: "adjusted_size 4294967295 = 8" by (simp add: adjusted_size_def)
  have s: "8 \<le> GET_SIZE (mem heap1) (HDRP 4192)"
    by (simp add: GET_SIZE_def HDRP_def heap1_reads)
  have n: "(4294967304::word32) = 8" by simp
  show ?thesis
    using size_rounding_wraps[OF a, of heap0 4192 4192 heap1] e s find_fit_heap0_8
    by (simp add: n)
qed

section \<open>Realloc at the heap tail\<close>

text \<open>
  Claim C6. When the block at \<open>ptr\<close> is followed by the epilogue (the next header has size
  0) and the request does not fit in place, \<^verbatim>\<open>mm_realloc\<close> asks the provider for exactly
  \<open>new_size - old_size\<close> bytes. If the provider grants them, the break has advanced by that
  amount, header and footer of the block are \<open>(new_size, allocated)\<close>, a new epilogue
  \<open>(0, allocated)\<close> follows the block, and \<open>ptr\<close> is returned. If the provider refuses,
  null is returned and the heap is unchanged.
\<close>

theorem realloc_grow_at_tail:
  assumes "ptr \<noteq> NULL" "n \<noteq> 0"
    and "old_size = GET_SIZE (mem s) (HDRP ptr)" and "new_size = adjusted_size n"
    and "old_size < new_size"
    and "GET_SIZE (mem s) (HDRP (NEXT_BLKP (mem s) ptr)) = 0"
  shows "if unat (mem_brk s) + unat (new_size - old_size) \<le> unat (mem_max_addr s)
         then \<exists>s'. mm_realloc s ptr n = Some (s', ptr)
                \<and> mem_brk s' = mem_brk s + (new_size - old_size)
                \<and> GET (mem s') (HDRP ptr) = PACK new_size 1
                \<and> FTRP (mem s') ptr = ptr + new_size - 8
                \<and> GET (mem s') (FTRP (mem s') ptr) = PACK new_size 1
                \<and> NEXT_BLKP (mem s') ptr = ptr + new_size
                \<and> GET (mem s') (HDRP (NEXT_BLKP (mem s') ptr)) = PACK 0 1
         else mm_realloc s ptr n = Some (s, NULL)"
proof -
  have d: "8 dvd unat new_size" using assms(4) adjusted_size_dvd by simp
  have lt: "unat old_size < unat new_size" using assms(5) by (simp add: word_less_nat_alt)
  have "8 dvd unat old_size" using assms(3) GET_SIZE_dvd by simp
  then have n8: "8 \<le> unat new_size" using d lt by presburger
  have p1: "\<not> new_size \<le> old_size" using assms(5) by simp
  have ne: "new_size - old_size \<noteq> 0" using assms(5) by simp
  have a6: "GET_SIZE (mem s) (NEXT_BLKP (mem s) ptr - 4) = 0" using assms(6) by (simp add: HDRP_def)
  note t = tail_tags[OF d n8, of "mem s" ptr]
  have gs: "PACK new_size 1 AND NOT 7 = new_size" by (rule GET_SIZE_PACK[OF d]) simp
  have ft: "FTRP mm ptr = ptr + new_size - 8" if "GET mm (ptr - 4) = PACK new_size 1" for mm
    using that by (simp only: FTRP_def HDRP_def GET_SIZE_def gs)
  have nx: "NEXT_BLKP mm ptr = ptr + new_size" if "GET mm (ptr - 4) = PACK new_size 1" for mm
    using that by (simp only: NEXT_BLKP_def GET_SIZE_def gs)
  show ?thesis
  proof (cases "unat (mem_brk s) + unat (new_size - old_size) \<le> unat (mem_max_addr s)")
    case True
    have r: "mem_brk s \<noteq> - 1" by (rule mem_sbrk_fail[OF ne True])
    have "mm_realloc s ptr n = Some (s\<lparr>mem_brk := mem_brk s + (new_size - old_size),
        mem := PUT (PUT (PUT (mem s) (ptr - 4) (PACK new_size 1)) (ptr + new_size - 8) (PACK new_size 1))
                 (ptr + new_size - 4) (PACK 0 1)\<rparr>, ptr)"
      using True assms(1,2) p1 r t(1,2) a6
      unfolding mm_realloc_def assms(3)[symmetric] assms(4)[symmetric]
      by (simp add: Let_def mem_sbrk_def put_def HDRP_def)
    then show ?thesis
      using True t(3,4,5) ft[OF t(3)] nx[OF t(3)] by (simp add: HDRP_def)
  next
    case False
    then show ?thesis
      using assms(1,2) p1 a6
      unfolding mm_realloc_def assms(3)[symmetric] assms(4)[symmetric]
      by (simp add: Let_def mem_sbrk_def HDRP_def)
  qed
qed

lemma heap2_reads: "GET (mem heap2) 4188 = 4097" "GET (mem heap2) 8284 = 1"
  by (simp_all add: heap2_eq mem0_def puts_def GET_PUT_same GET_PUT_frame)

theorem realloc_grow_at_tail_witness:
  "(4192::word32) \<noteq> NULL \<and> (5000::word32) \<noteq> 0
   \<and> GET_SIZE (mem heap2) (HDRP 4192) = 4096 \<and> adjusted_size 5000 = 5008
   \<and> (4096::word32) < 5008
   \<and> GET_SIZE (mem heap2) (HDRP (NEXT_BLKP (mem heap2) 4192)) = 0
   \<and> unat (mem_brk heap2) + unat (5008 - 4096 :: word32) \<le> unat (mem_max_addr heap2)
   \<and> (\<exists>s'. mm_realloc heap2 4192 5000 = Some (s', 4192) \<and> mem_brk s' = 9200
          \<and> GET (mem s') 4188 = 5009 \<and> GET (mem s') 9192 = 5009 \<and> GET (mem s') 9196 = 1)"
proof -
  have o: "GET_SIZE (mem heap2) (HDRP 4192) = 4096"
    by (simp add: GET_SIZE_def HDRP_def heap2_reads)
  have a: "adjusted_size 5000 = 5008" by (simp add: adjusted_size_def)
  have e: "GET_SIZE (mem heap2) (HDRP (NEXT_BLKP (mem heap2) 4192)) = 0"
    by (simp add: GET_SIZE_def HDRP_def NEXT_BLKP_def heap2_reads)
  have b: "mem_brk heap2 = 8288" "mem_max_addr heap2 = 20975616" by (simp_all add: heap2_eq)
  show ?thesis
    using realloc_grow_at_tail[of 4192 5000 4096 heap2 5008] o a e b
    by (auto simp add: HDRP_def PACK_def)
qed

section \<open>A request near the top of the size range\<close>

text \<open>
  Claim C1 says that \<^verbatim>\<open>mm_malloc(size)\<close> returns null or an aligned pointer to a block with
  at least \<open>size\<close> payload bytes. On the heap that \<^verbatim>\<open>mm_init\<close> builds, a request of
  \<open>2^32 - 8\<close> bytes is rounded to 0. \<^verbatim>\<open>mm_malloc\<close> then returns the payload pointer 4192 of
  the 4096-byte free block: the block is still marked free, it is still the head of the
  free list of its class, and the footer of the prologue has been overwritten.
\<close>

theorem malloc_wrapped_request:
  "mm_init fresh_heap = (heap0, 0)
   \<and> GET (mem heap0) 4184 = 9
   \<and> adjusted_size 4294967288 = 0
   \<and> (\<exists>s'. mm_malloc heap0 4294967288 = Some (s', 4192)
          \<and> GET_SIZE (mem s') (HDRP 4192) = 4096
          \<and> GET_ALLOC (mem s') (HDRP 4192) = 0
          \<and> seg_get s' 18 = 4192
          \<and> GET (mem s') 4184 = 1)"
proof -
  have i: "mm_init fresh_heap = (heap0, 0)" by (simp add: mm_init_fresh heap0_eq)
  have p: "GET (mem heap0) 4184 = 9"
    by (simp add: heap0_eq mem0_def puts_def GET_PUT_same GET_PUT_frame)
  have a: "adjusted_size 4294967288 = 0" by (simp add: adjusted_size_def)
  have m: "mm_malloc heap0 4294967288 =
     Some (\<lparr>mem = puts mem0 [(4168, 0), (4188, 1), (4184, 1), (4188, 4096), (8280, 4096),
                               (4196, 0), (4192, 0), (4168, 4192)],
            seg_list = 4096, mem_heap_lo = 4096, mem_brk = 8288, mem_max_addr = 20975616\<rparr>, 4192)"
    unfolding mm_malloc_def
    by (simp add: heap0_eq mem0_def exec_simps)
  show ?thesis
    unfolding m
    by (simp add: i p a mem0_def puts_def macro_defs GET_PUT_same GET_PUT_frame)
qed

section \<open>Best fit within the first class that has a fit\<close>

text \<open>
  Claim C2. \<^verbatim>\<open>find_fit(asize)\<close> scans the classes from the class of \<open>asize\<close> up to 19 in
  this order. Where the scanned lists are well formed (each ends at the null pointer), its
  result is the search of the specification: within a class an exact fit is returned at
  once, otherwise the block of least surplus \<open>size - asize\<close> of the first class that holds
  a block of size at least \<open>asize\<close>, and candidates of different classes are never
  compared. The result is null iff no scanned class holds a block of size at least
  \<open>asize\<close>.
\<close>

theorem find_fit_best_in_first_class:
  assumes "length Ls = LIST_LIMIT"
    and "\<forall>i \<in> {get_list_index asize ..< LIST_LIMIT}. succ_chain (mem s) (seg_get s i) (Ls ! i)"
  shows "find_fit s asize =
           Some (spec_find_fit asize (map (sized (mem s)) (drop (get_list_index asize) Ls)))
     \<and> (find_fit s asize = Some NULL \<longleftrightarrow>
          (\<forall>i \<in> {get_list_index asize ..< LIST_LIMIT}.
             \<forall>b \<in> set (Ls ! i). GET_SIZE (mem s) (HDRP b) < asize))
     \<and> (\<forall>r. find_fit s asize = Some r \<and> r \<noteq> NULL \<longrightarrow>
          (\<exists>k \<in> {get_list_index asize ..< LIST_LIMIT}.
             (\<forall>i \<in> {get_list_index asize ..< k}.
                \<forall>b \<in> set (Ls ! i). GET_SIZE (mem s) (HDRP b) < asize)
             \<and> r \<in> set (Ls ! k) \<and> asize \<le> GET_SIZE (mem s) (HDRP r)
             \<and> (\<forall>b \<in> set (Ls ! k). asize \<le> GET_SIZE (mem s) (HDRP b) \<longrightarrow>
                   GET_SIZE (mem s) (HDRP r) - asize \<le> GET_SIZE (mem s) (HDRP b) - asize)))"
proof -
  let ?x = "get_list_index asize"
  let ?Lss = "map (sized (mem s)) (drop ?x Ls)"
  have le: "?x \<le> LIST_LIMIT" by (simp add: get_list_index_def)
  have ch: "\<forall>j. ?x \<le> j \<and> j < LIST_LIMIT \<longrightarrow> succ_chain (mem s) (seg_get s j) (Ls ! j)"
    using assms(2) by simp
  have eq: "find_fit s asize = Some (spec_find_fit asize ?Lss)"
    unfolding find_fit_def by (rule find_fit_from_spec[OF assms(1) ch le])
  have nth: "?Lss ! j = sized (mem s) (Ls ! (?x + j))" if "j < length ?Lss" for j
    using that by simp
  have len: "length ?Lss = LIST_LIMIT - ?x" using assms(1) by simp
  have cand: "candidates asize (sized (mem s) (Ls ! i)) = []
      \<longleftrightarrow> (\<forall>b \<in> set (Ls ! i). GET_SIZE (mem s) (HDRP b) < asize)" for i
    by (auto simp add: candidates_def sized_def filter_empty_conv)
  have nn: "\<forall>L \<in> set ?Lss. \<forall>x \<in> set L. fst x \<noteq> NULL"
  proof (intro ballI)
    fix L x assume L: "L \<in> set ?Lss" and x: "x \<in> set L"
    then obtain j where j: "j < length ?Lss" and Lj: "L = ?Lss ! j"
      by (auto simp add: in_set_conv_nth)
    have "succ_chain (mem s) (seg_get s (?x + j)) (Ls ! (?x + j))"
      using ch j len by simp
    from succ_chain_nonnull[OF this] x Lj nth[OF j] show "fst x \<noteq> NULL"
      by (auto simp add: sized_def)
  qed
  have all: "(\<forall>L \<in> set ?Lss. candidates asize L = [])
     \<longleftrightarrow> (\<forall>i \<in> {?x ..< LIST_LIMIT}. \<forall>b \<in> set (Ls ! i). GET_SIZE (mem s) (HDRP b) < asize)"
    (is "?A \<longleftrightarrow> ?B")
  proof
    assume A: ?A
    show ?B
    proof
      fix i assume i: "i \<in> {?x ..< LIST_LIMIT}"
      then have "Ls ! i \<in> set (drop ?x Ls)"
        using assms(1) by (auto simp add: in_set_drop_nth)
      then have "sized (mem s) (Ls ! i) \<in> set ?Lss" by simp
      then have "candidates asize (sized (mem s) (Ls ! i)) = []" using A by blast
      then show "\<forall>b \<in> set (Ls ! i). GET_SIZE (mem s) (HDRP b) < asize" by (simp only: cand)
    qed
  next
    assume B: ?B
    show ?A
    proof
      fix L assume "L \<in> set ?Lss"
      then obtain i where i: "?x \<le> i" "i < length Ls" and L: "L = sized (mem s) (Ls ! i)"
        by (auto simp add: in_set_drop_nth)
      then have "\<forall>b \<in> set (Ls ! i). GET_SIZE (mem s) (HDRP b) < asize"
        using B assms(1) by simp
      then show "candidates asize L = []" unfolding L by (simp only: cand)
    qed
  qed
  have third: "\<exists>k \<in> {?x ..< LIST_LIMIT}.
             (\<forall>i \<in> {?x ..< k}. \<forall>b \<in> set (Ls ! i). GET_SIZE (mem s) (HDRP b) < asize)
             \<and> r \<in> set (Ls ! k) \<and> asize \<le> GET_SIZE (mem s) (HDRP r)
             \<and> (\<forall>b \<in> set (Ls ! k). asize \<le> GET_SIZE (mem s) (HDRP b) \<longrightarrow>
                   GET_SIZE (mem s) (HDRP r) - asize \<le> GET_SIZE (mem s) (HDRP b) - asize)"
    if r: "find_fit s asize = Some r" "r \<noteq> NULL" for r
  proof -
    from r eq have rr: "spec_find_fit asize ?Lss = r" by simp
    with r(2) spec_find_fit_first[of asize ?Lss]
    obtain k where k: "k < length ?Lss" "\<forall>j < k. candidates asize (?Lss ! j) = []"
      "class_choice asize (?Lss ! k) = Some r" by auto
    from class_choice_min[OF k(3)] nth[OF k(1)]
    obtain sz where sz: "(r, sz) \<in> set (sized (mem s) (Ls ! (?x + k)))" "asize \<le> sz"
      "\<forall>x \<in> set (sized (mem s) (Ls ! (?x + k))). asize \<le> snd x \<longrightarrow> sz - asize \<le> snd x - asize"
      by auto
    from sz(1) have rk: "r \<in> set (Ls ! (?x + k))" and szr: "sz = GET_SIZE (mem s) (HDRP r)"
      by (auto simp add: sized_def)
    have early: "\<forall>b \<in> set (Ls ! i). GET_SIZE (mem s) (HDRP b) < asize" if "i \<in> {?x ..< ?x + k}" for i
    proof -
      from that have "i - ?x < k" "?x + (i - ?x) = i" by auto
      with k(1,2) nth[of "i - ?x"] have "candidates asize (sized (mem s) (Ls ! i)) = []" by auto
      then show ?thesis by (simp only: cand)
    qed
    have "\<forall>b \<in> set (Ls ! (?x + k)). asize \<le> GET_SIZE (mem s) (HDRP b) \<longrightarrow>
            GET_SIZE (mem s) (HDRP r) - asize \<le> GET_SIZE (mem s) (HDRP b) - asize"
      using sz(3) unfolding szr by (auto simp add: sized_def)
    moreover have "?x + k \<in> {?x ..< LIST_LIMIT}" using k(1) len by simp
    ultimately show ?thesis
      using early rk sz(2) szr by blast
  qed
  show ?thesis
    using eq spec_find_fit_NULL[OF nn, of asize] all third by simp
qed

lemma GET_zero: "GET (\<lambda>_. 0) p = 0"
  by (simp add: GET_def)

lemma three_free_reads:
  "seg_get three_free 14 = 4200" "seg_get three_free 15 = 0" "seg_get three_free 16 = 0"
  "seg_get three_free 17 = 0" "seg_get three_free 18 = 0" "seg_get three_free 19 = 0"
  "GET_SUCC (mem three_free) 4200 = 4400" "GET_SUCC (mem three_free) 4400 = 4600"
  "GET_SUCC (mem three_free) 4600 = 0"
  "GET_SIZE (mem three_free) (HDRP 4200) = 200" "GET_SIZE (mem three_free) (HDRP 4400) = 136"
  "GET_SIZE (mem three_free) (HDRP 4600) = 160"
  by (simp_all add: three_free_def puts_def seg_get_def seg_slot_def GET_SUCC_def GET_SIZE_def
      HDRP_def GET_PUT_same GET_PUT_frame GET_zero)

lemma upt_14_20: "{14 ..< 20 :: nat} = {14, 15, 16, 17, 18, 19}"
  by auto


theorem find_fit_best_in_first_class_witness:
  "length (replicate 14 [] @ [[4200, 4400, 4600 :: word32]] @ replicate 5 []) = LIST_LIMIT
   \<and> succ_chain (mem three_free) (seg_get three_free 14) [4200, 4400, 4600]
   \<and> succ_chain (mem three_free) (seg_get three_free 15) []
   \<and> succ_chain (mem three_free) (seg_get three_free 16) []
   \<and> succ_chain (mem three_free) (seg_get three_free 17) []
   \<and> succ_chain (mem three_free) (seg_get three_free 18) []
   \<and> succ_chain (mem three_free) (seg_get three_free 19) []
   \<and> get_list_index 144 = 14
   \<and> find_fit three_free 144 = Some 4600"
proof -
  let ?Ls = "replicate 14 [] @ [[4200, 4400, 4600 :: word32]] @ replicate 5 []"
  have i: "get_list_index 144 = 14" by (simp add: get_list_index_def)
  have l: "length ?Ls = LIST_LIMIT" by simp
  have e: "succ_chain (mem three_free) (seg_get three_free 14) [4200, 4400, 4600]"
    "succ_chain (mem three_free) (seg_get three_free 15) []"
    "succ_chain (mem three_free) (seg_get three_free 16) []"
    "succ_chain (mem three_free) (seg_get three_free 17) []"
    "succ_chain (mem three_free) (seg_get three_free 18) []"
    "succ_chain (mem three_free) (seg_get three_free 19) []"
    by (simp_all add: three_free_reads)
  have c: "\<forall>i \<in> {get_list_index 144 ..< LIST_LIMIT}.
         succ_chain (mem three_free) (seg_get three_free i) (?Ls ! i)"
    unfolding i upt_14_20 using e by (simp add: nth_append)
  have d: "drop 14 ?Ls = [[4200, 4400, 4600]] @ replicate 5 []" by simp
  have r: "spec_find_fit 144 (map (sized (mem three_free)) (drop (get_list_index 144) ?Ls)) = 4600"
    unfolding i d by (simp add: sized_def three_free_reads class_choice_def candidates_def)
  have "find_fit three_free 144 = Some 4600"
    using find_fit_best_in_first_class[OF l c] r by simp
  then show ?thesis using l e i by simp
qed

section \<open>The checker does not look at size classes\<close>

text \<open>
  Claim C9. \<^verbatim>\<open>mm_check\<close> never compares the size class of a listed block with the index of
  the list that holds it. Take any heap that passes the audits \<^verbatim>\<open>mm_check\<close> does make:
  prologue and epilogue shape, alignment, header equal to footer, no two adjacent free
  blocks, list pointers within the heap bounds, listed blocks free, consistent
  predecessor links, and as many free blocks in the heap as in the lists. If some block
  \<open>c\<close> is filed in a list \<open>i\<close> that is not the list of its size class, \<^verbatim>\<open>mm_check\<close> returns 1
  all the same.
\<close>

theorem mm_check_ignores_class:
  assumes "audits s B e Ls"
    and "i < LIST_LIMIT" and "c \<in> set (Ls ! i)"
    and "get_list_index (GET_SIZE (mem s) (HDRP c)) \<noteq> i"
  shows "mm_check s = Some (Inr 1)"
proof -
  let ?hs = "seg_list s + 88"
  from assms(1) have pro: "GET_SIZE (mem s) (HDRP ?hs) = 8" "GET_ALLOC (mem s) (HDRP ?hs) \<noteq> 0"
    and w: "heap_walk (mem s) ?hs B e" and ba: "\<forall>b \<in> set B. block_audit (mem s) b"
    and ep: "GET_ALLOC (mem s) (HDRP e) \<noteq> 0"
    and len: "length Ls = LIST_LIMIT"
    and la: "\<forall>j \<in> {..<LIST_LIMIT}. list_audit s (seg_get s j) (Ls ! j)"
    and cnt: "length (filter (is_free (mem s)) B) = length (concat Ls)"
    by (simp_all add: audits_def Let_def is_free_def)
  have e0: "GET_SIZE (mem s) (HDRP e) = 0" using w by (rule heap_walk_end)
  have hs: "seg_list s + of_nat LIST_LIMIT * 4 + 2 * WSIZE = ?hs" by simp
  have ch: "check_heap (mem s) ?hs 0 = Some (Inr (e, int (length (filter (is_free (mem s)) B))))"
    using check_heap_walk[OF w ba, of 0] by simp
  have cl: "check_lists s 0 0 = Some (Inr (int (length (concat Ls))))"
    using check_lists_audit[OF len la, of 0 0] by simp
  show ?thesis
    unfolding mm_check_def hs
    using pro e0 ep cnt by (simp add: ch cl)
qed

lemma misfiled_eq:
  "misfiled = \<lparr>mem = puts mem0 [(4168, 0), (4096, 4192)],
     seg_list = 4096, mem_heap_lo = 4096, mem_brk = 8288, mem_max_addr = 20975616\<rparr>"
  by (simp add: misfiled_def heap0_eq seg_set_def seg_slot_def puts_def)

lemma misfiled_table:
  "\<forall>i \<in> set [0..<20]. seg_get misfiled i = (if i = 0 then 4192 else 0)"
  unfolding upt20
  by (simp add: misfiled_eq seg_get_def seg_slot_def read_simps)

lemma misfiled_reads:
  "GET (mem misfiled) 4180 = 9" "GET (mem misfiled) 4184 = 9" "GET (mem misfiled) 4188 = 4096"
  "GET (mem misfiled) 8280 = 4096" "GET (mem misfiled) 8284 = 1" "GET (mem misfiled) 4196 = 0"
  by (simp_all add: misfiled_eq read_simps)


theorem mm_check_ignores_class_witness:
  "audits misfiled [4184, 4192] 8288 ([[4192]] @ replicate 19 [])
   \<and> (0::nat) < LIST_LIMIT \<and> (4192::word32) \<in> set (([[4192]] @ replicate 19 []) ! 0)
   \<and> get_list_index (GET_SIZE (mem misfiled) (HDRP 4192)) = 18
   \<and> mm_check misfiled = Some (Inr 1)"
proof -
  let ?Ls = "[[4192::word32]] @ replicate 19 []"
  have f: "mem_heap_lo misfiled = 4096" "mem_heap_hi misfiled = 8288" "seg_list misfiled = 4096"
    by (simp_all add: misfiled_eq mem_heap_hi_def)
  have la: "\<forall>i \<in> {..<LIST_LIMIT}. list_audit misfiled (seg_get misfiled i) (?Ls ! i)"
    unfolding ball_lessThan_20 using misfiled_table unfolding upt20
    by (simp add: list_audit_def f is_free_def GET_ALLOC_def GET_SUCC_def HDRP_def misfiled_reads)
  have a: "audits misfiled [4184, 4192] 8288 ?Ls"
    unfolding audits_def Let_def using la
    by (simp add: f is_free_def block_audit_def GET_ALLOC_def GET_SIZE_def HDRP_def FTRP_def
        NEXT_BLKP_def misfiled_reads)
  have c: "get_list_index (GET_SIZE (mem misfiled) (HDRP 4192)) = 18"
    by (simp add: GET_SIZE_def HDRP_def misfiled_reads get_list_index_def)
  have m: "(4192::word32) \<in> set (?Ls ! 0)" by simp
  show ?thesis
    using mm_check_ignores_class[OF a _ m, of ] a c by simp
qed

section \<open>The heap invariant and its preservation\<close>


subsection \<open>Addresses as natural numbers\<close>

lemma W_unat [simp]: "W (unat w) = w"
  by (simp add: W_def)

lemma unat_W: "n < 4294967296 \<Longrightarrow> unat (W n) = n"
  by (simp add: W_def unat_of_nat)

lemma W_add: "W a + W b = W (a + b)"
  by (simp add: W_def)

lemma W_numeral [simp]: "W (numeral k) = numeral k" and W_0 [simp]: "W 0 = 0"
  and W_1 [simp]: "W 1 = 1"
  by (simp_all add: W_def)

lemma W_add_numeral: "W a + numeral k = W (a + numeral k)"
  by (simp add: W_def)

lemma W_diff: "b \<le> a \<Longrightarrow> W a - W b = W (a - b)"
  by (simp add: W_def)

lemma W_diff_numeral: "numeral k \<le> a \<Longrightarrow> W a - numeral k = W (a - numeral k)"
  using W_diff[of "numeral k" a] by simp

lemma W_eq_iff: "a < 4294967296 \<Longrightarrow> b < 4294967296 \<Longrightarrow> W a = W b \<longleftrightarrow> a = b"
  by (metis unat_W)

lemma W_eq_0_iff: "a < 4294967296 \<Longrightarrow> W a = 0 \<longleftrightarrow> a = 0"
  using W_eq_iff[of a 0] by simp


lemma W_less_iff: "a < 4294967296 \<Longrightarrow> b < 4294967296 \<Longrightarrow> W a < W b \<longleftrightarrow> a < b"
  by (simp add: word_less_nat_alt unat_W)

subsection \<open>Bytes and words outside a written region\<close>

lemma unat_W_diff:
  assumes "x < 4294967296" "y < 4294967296"
  shows "unat (W y - W x) = (if x \<le> y then y - x else 4294967296 + y - x)"
  using assms by (auto simp add: unat_sub32 unat_W)

lemma same_outside_refl: "same_outside A m m"
  by (simp add: same_outside_def)

lemma same_outside_trans:
  "same_outside A m m' \<Longrightarrow> same_outside B m' m'' \<Longrightarrow> same_outside (A \<union> B) m m''"
  by (simp add: same_outside_def)

lemma same_outside_mono:
  "same_outside A m m' \<Longrightarrow> A \<subseteq> B \<Longrightarrow> same_outside B m m'"
  by (auto simp add: same_outside_def)

lemma same_outside_PUT:
  assumes "t + 4 \<le> 4294967296"
  shows "same_outside {t ..< t + 4} m (PUT m (W t) v)"
  unfolding same_outside_def
proof (intro allI impI)
  fix z :: nat assume z: "z < 4294967296" and o: "z \<notin> {t ..< t + 4}"
  have "t < 4294967296" using assms by simp
  then have "unat (W z - W t) = (if t \<le> z then z - t else 4294967296 + z - t)"
    using z by (rule unat_W_diff)
  then have "4 \<le> unat (W z - W t)"
    using assms z o by (auto split: if_splits)
  then show "PUT m (W t) v (W z) = m (W z)" by (rule PUT_byte_other)
qed

lemma GET_same_outside:
  assumes "same_outside A m m'" and "{t ..< t + 4} \<inter> A = {}" and "t + 4 \<le> 4294967296"
  shows "GET m' (W t) = GET m (W t)"
proof -
  have b: "m' (W (t + k)) = m (W (t + k))" if "k < 4" for k
  proof -
    have "t + k \<in> {t ..< t + 4}" using that by simp
    then have "t + k \<notin> A" using assms(2) by blast
    then show ?thesis using assms(1,3) that unfolding same_outside_def by simp
  qed
  have e: "W (t + 0) = W t" "W (t + 1) = W t + 1" "W (t + 2) = W t + 2" "W (t + 3) = W t + 3"
    by (simp_all add: W_def)
  have l: "(0::nat) < 4" "(1::nat) < 4" "(2::nat) < 4" "(3::nat) < 4" by simp_all
  show ?thesis
    unfolding GET_def
    using b[OF l(1)] b[OF l(2)] b[OF l(3)] b[OF l(4)] by (simp only: e)
qed

lemma GET_PUT_W:
  assumes "x + 4 \<le> y \<or> y + 4 \<le> x" "x + 4 \<le> 4294967296" "y + 4 \<le> 4294967296"
  shows "GET (PUT m (W x) v) (W y) = GET m (W y)"
  using same_outside_PUT[OF assms(2), of m v] assms
  by (intro GET_same_outside[of "{x ..< x + 4}" m]) auto

lemma GET_PUT_W_same: "GET (PUT m (W x) v) (W x) = v"
  by (rule GET_PUT_same)



subsection \<open>Tags\<close>

lemma tag_size: "8 dvd n \<Longrightarrow> n < 4294967296 \<Longrightarrow> tag n al AND NOT 7 = W n"
  unfolding tag_def by (rule GET_SIZE_PACK) (simp_all add: unat_W)

lemma tag_alloc: "8 dvd n \<Longrightarrow> n < 4294967296 \<Longrightarrow> tag n al AND 1 = (if al then 1 else 0)"
  unfolding tag_def by (rule GET_ALLOC_PACK) (simp_all add: unat_W)

lemma tag_PACK: "tag n True = PACK (W n) 1" "tag n False = PACK (W n) 0"
  by (simp_all add: tag_def)

lemma HDRP_W: "4 \<le> p \<Longrightarrow> HDRP (W p) = W (p - 4)"
  unfolding HDRP_def using W_diff_numeral[of _ p] by simp

lemma GET_SIZE_tag:
  "GET m (W (p - 4)) = tag n al \<Longrightarrow> 4 \<le> p \<Longrightarrow> 8 dvd n \<Longrightarrow> n < 4294967296 \<Longrightarrow>
   GET_SIZE m (HDRP (W p)) = W n"
  by (simp only: GET_SIZE_def HDRP_W tag_size)

lemma GET_ALLOC_tag:
  "GET m (W (p - 4)) = tag n al \<Longrightarrow> 4 \<le> p \<Longrightarrow> 8 dvd n \<Longrightarrow> n < 4294967296 \<Longrightarrow>
   GET_ALLOC m (HDRP (W p)) = (if al then 1 else 0)"
  by (simp only: GET_ALLOC_def HDRP_W tag_alloc)

subsection \<open>Blocks that tile a range\<close>

lemma contig_append: "contig a (B1 @ B2) e \<longleftrightarrow> (\<exists>c. contig a B1 c \<and> contig c B2 e)"
  by (induction B1 arbitrary: a) auto

lemma contig_le: "contig a B e \<Longrightarrow> a \<le> e"
proof (induction B arbitrary: a)
  case Nil
  then show ?case by simp
next
  case (Cons b B)
  obtain p n al where b: "b = (p, n, al)" by (cases b)
  from Cons.prems have "contig (a + n) B e" by (simp add: b)
  from Cons.IH[OF this] show ?case by simp
qed

lemma contig_end_unique: "contig a B e \<Longrightarrow> contig a B e' \<Longrightarrow> e = e'"
  by (induction B arbitrary: a) auto

lemma contig_mem:
  "contig a B e \<Longrightarrow> (p, n, al) \<in> set B \<Longrightarrow> a \<le> p \<and> p + n \<le> e \<and> 16 \<le> n \<and> 8 dvd n"
proof (induction B arbitrary: a)
  case Nil
  then show ?case by simp
next
  case (Cons b B)
  obtain p' n' al' where b: "b = (p', n', al')" by (cases b)
  from Cons.prems(1) have c: "contig (a + n') B e" by (simp add: b)
  show ?case
  proof (cases "(p, n, al) = b")
    case True
    then show ?thesis using Cons.prems(1) contig_le[OF c] by (auto simp add: b)
  next
    case False
    then have "(p, n, al) \<in> set B" using Cons.prems(2) by simp
    from Cons.IH[OF c this] show ?thesis by simp
  qed
qed

text \<open>Two blocks of a tiling are the same block or do not overlap.\<close>

lemma contig_disjoint:
  "contig a B e \<Longrightarrow> (p, n, al) \<in> set B \<Longrightarrow> (p', n', al') \<in> set B \<Longrightarrow>
   (p, n, al) = (p', n', al') \<or> p + n \<le> p' \<or> p' + n' \<le> p"
proof (induction B arbitrary: a)
  case Nil
  then show ?case by simp
next
  case (Cons b B)
  obtain q k bl where b: "b = (q, k, bl)" by (cases b)
  from Cons.prems(1) have c: "contig (a + k) B e" and q: "q = a" by (simp_all add: b)
  consider "(p, n, al) = b" "(p', n', al') = b"
    | "(p, n, al) = b" "(p', n', al') \<in> set B"
    | "(p, n, al) \<in> set B" "(p', n', al') = b"
    | "(p, n, al) \<in> set B" "(p', n', al') \<in> set B"
    using Cons.prems(2,3) by auto
  then show ?case
  proof cases
    case 1 then show ?thesis by simp
  next
    case 2
    with contig_mem[OF c 2(2)] show ?thesis by (simp add: b q)
  next
    case 3
    with contig_mem[OF c 3(1)] show ?thesis by (simp add: b q)
  next
    case 4
    with Cons.IH[OF c] show ?thesis by simp
  qed
qed

lemma contig_addr_unique:
  assumes "contig a B e" "(p, n, al) \<in> set B" "(p, n', al') \<in> set B"
  shows "n = n' \<and> al = al'"
  using contig_disjoint[OF assms] contig_mem[OF assms(1,2)] contig_mem[OF assms(1,3)]
  by auto

lemma contig_distinct: "contig a B e \<Longrightarrow> distinct (map fst B)"
proof (induction B arbitrary: a)
  case Nil
  then show ?case by simp
next
  case (Cons b B)
  obtain q k bl where b: "b = (q, k, bl)" by (cases b)
  from Cons.prems have c: "contig (a + k) B e" and q: "q = a" and k: "16 \<le> k" by (simp_all add: b)
  have "q \<notin> fst ` set B"
  proof
    assume "q \<in> fst ` set B"
    then obtain n al where "(q, n, al) \<in> set B" by auto
    from contig_mem[OF c this] k show False by (simp add: q)
  qed
  then show ?case using Cons.IH[OF c] by (simp add: b)
qed



subsection \<open>Reading the tags of a well-formed heap\<close>

lemma NEXT_BLKP_tag:
  "GET m (W (p - 4)) = tag n al \<Longrightarrow> 4 \<le> p \<Longrightarrow> 8 dvd n \<Longrightarrow> n < 4294967296 \<Longrightarrow>
   NEXT_BLKP m (W p) = W (p + n)"
  using GET_SIZE_tag[of m p n al] by (simp add: NEXT_BLKP_def HDRP_def W_add)

lemma FTRP_tag:
  "GET m (W (p - 4)) = tag n al \<Longrightarrow> 4 \<le> p \<Longrightarrow> 8 dvd n \<Longrightarrow> n < 4294967296 \<Longrightarrow> 8 \<le> n \<Longrightarrow>
   FTRP m (W p) = W (p + n - 8)"
  using GET_SIZE_tag[of m p n al] W_diff_numeral[of _ "p + n"]
  by (simp add: FTRP_def W_add)

lemma PREV_BLKP_tag:
  "GET m (W (p - 8)) = tag n al \<Longrightarrow> 8 \<le> p \<Longrightarrow> n \<le> p \<Longrightarrow> 8 dvd n \<Longrightarrow> n < 4294967296 \<Longrightarrow>
   PREV_BLKP m (W p) = W (p - n)"
proof -
  assume a: "GET m (W (p - 8)) = tag n al" "8 \<le> p" "n \<le> p" "8 dvd n" "n < 4294967296"
  have "W p - 8 = W (p - 8)" using a(2) W_diff_numeral[of _ p] by simp
  then have "GET_SIZE m (W p - 8) = W n"
    using a by (simp only: GET_SIZE_def tag_size)
  then show ?thesis
    using a(3) by (simp add: PREV_BLKP_def W_diff)
qed

lemma heap_blocks_bounds:
  "heap_blocks s B \<Longrightarrow> unat (seg_list s) + 96 \<le> unat (mem_brk s)"
  by (auto simp add: heap_blocks_def Let_def dest: contig_le)

lemma heap_blocks_mem:
  assumes "heap_blocks s B" "(p, n, al) \<in> set B"
  shows "unat (seg_list s) + 96 \<le> p" "p + n \<le> unat (mem_brk s)" "16 \<le> n" "8 dvd n"
    "p + n < 4294967296"
    "GET (mem s) (W (p - 4)) = tag n al" "GET (mem s) (W (p + n - 8)) = tag n al"
proof -
  from assms(1) have c: "contig (unat (seg_list s) + 96) B (unat (mem_brk s))"
    and t: "tagged (mem s) (p, n, al)"
    using assms(2) by (auto simp add: heap_blocks_def Let_def)
  from contig_mem[OF c assms(2)]
  show "unat (seg_list s) + 96 \<le> p" "p + n \<le> unat (mem_brk s)" "16 \<le> n" "8 dvd n"
    by simp_all
  then show "p + n < 4294967296" using unat32_less[of "mem_brk s"] by linarith
  from t show "GET (mem s) (W (p - 4)) = tag n al" "GET (mem s) (W (p + n - 8)) = tag n al"
    by (simp_all add: tagged_def)
qed

lemma heap_blocks_macros:
  assumes "heap_blocks s B" "(p, n, al) \<in> set B"
  shows "GET_SIZE (mem s) (HDRP (W p)) = W n"
    "GET_ALLOC (mem s) (HDRP (W p)) = (if al then 1 else 0)"
    "NEXT_BLKP (mem s) (W p) = W (p + n)"
    "FTRP (mem s) (W p) = W (p + n - 8)"
proof -
  note h = heap_blocks_mem[OF assms]
  have p4: "4 \<le> p" and n32: "n < 4294967296" and n8: "8 \<le> n" using h(1,3,5) by simp_all
  show "GET_SIZE (mem s) (HDRP (W p)) = W n" by (rule GET_SIZE_tag[OF h(6) p4 h(4) n32])
  show "GET_ALLOC (mem s) (HDRP (W p)) = (if al then 1 else 0)"
    by (rule GET_ALLOC_tag[OF h(6) p4 h(4) n32])
  show "NEXT_BLKP (mem s) (W p) = W (p + n)" by (rule NEXT_BLKP_tag[OF h(6) p4 h(4) n32])
  show "FTRP (mem s) (W p) = W (p + n - 8)" by (rule FTRP_tag[OF h(6) p4 h(4) n32 n8])
qed

subsection \<open>Writes that leave the tags alone\<close>

lemma heap_blocks_frame:
  assumes hb: "heap_blocks s B" and so: "same_outside A (mem s) m'"
    and av: "\<forall>t \<in> tag_slots s B. {t ..< t + 4} \<inter> A = {}"
  shows "heap_blocks (s\<lparr>mem := m'\<rparr>) B"
proof -
  let ?lo = "unat (seg_list s)" and ?e = "unat (mem_brk s)"
  have e: "?lo + 96 \<le> ?e" "?e < 4294967296"
    using heap_blocks_bounds[OF hb] unat32_less[of "mem_brk s"] by simp_all
  have g: "GET m' (W t) = GET (mem s) (W t)" if "t \<in> tag_slots s B" "t + 4 \<le> 4294967296" for t
    using so av that by (intro GET_same_outside[of A]) auto
  have g1: "GET m' (W (?lo + 84)) = GET (mem s) (W (?lo + 84))"
    "GET m' (W (?lo + 88)) = GET (mem s) (W (?lo + 88))"
    "GET m' (W (?e - 4)) = GET (mem s) (W (?e - 4))"
    using e by (auto intro!: g simp add: tag_slots_def)
  have g2: "tagged m' b" if "b \<in> set B" for b
  proof -
    obtain p n al where b: "b = (p, n, al)" by (cases b)
    note h = heap_blocks_mem[OF hb that[unfolded b]]
    have "p - 4 \<in> tag_slots s B" "p + n - 8 \<in> tag_slots s B"
      using that by (force simp add: tag_slots_def b)+
    then have "GET m' (W (p - 4)) = GET (mem s) (W (p - 4))"
      "GET m' (W (p + n - 8)) = GET (mem s) (W (p + n - 8))"
      using h(3,5) by (auto intro!: g)
    then show ?thesis using h(6,7) by (simp add: tagged_def b)
  qed
  show ?thesis
    using hb g1 g2 by (simp add: heap_blocks_def Let_def)
qed



subsection \<open>Segments of doubly linked lists\<close>

lemma hd_ptr_simps [simp]: "hd_ptr [] q = q" "hd_ptr (c # L) q = W c"
  by (simp_all add: hd_ptr_def)

lemma last_ptr_simps [simp]: "last_ptr prev [] = prev" "last_ptr prev (L @ [c]) = W c"
  "last_ptr prev (c # L) = last_ptr (W c) L"
  by (simp_all add: last_ptr_def)

lemma dseg_hd: "dseg m prev p L q \<Longrightarrow> p = hd_ptr L q"
  by (cases L) simp_all

lemma dseg_append:
  "dseg m prev p (L1 @ L2) q \<longleftrightarrow>
     dseg m prev p L1 (hd_ptr L2 q) \<and> dseg m (last_ptr prev L1) (hd_ptr L2 q) L2 q"
proof (induction L1 arbitrary: prev p)
  case Nil
  show ?case using dseg_hd[of m prev p L2 q] by auto
next
  case (Cons c L1)
  show ?case by (simp add: Cons.IH)
qed

lemma interval_disj_sub:
  "{a ..< b} \<inter> A = {} \<Longrightarrow> a \<le> a' \<Longrightarrow> b' \<le> b \<Longrightarrow> {a' ..< b'::nat} \<inter> A = {}"
  by (auto simp add: disjoint_iff)

lemma dseg_frame:
  assumes "same_outside A m m'" and "\<forall>c \<in> set L. {c ..< c + 8} \<inter> A = {} \<and> c + 8 \<le> 4294967296"
  shows "dseg m' prev p L q = dseg m prev p L q"
  using assms(2)
proof (induction L arbitrary: prev p)
  case Nil
  show ?case by simp
next
  case (Cons c L)
  then have a: "{c ..< c + 8} \<inter> A = {}" "c + 8 \<le> 4294967296" by simp_all
  have "{c ..< c + 4} \<inter> A = {}" "{c + 4 ..< c + 4 + 4} \<inter> A = {}"
    by (rule interval_disj_sub[OF a(1)]; simp)+
  then have "GET m' (W c) = GET m (W c)" "GET m' (W (c + 4)) = GET m (W (c + 4))"
    using a(2) assms(1) by (auto intro!: GET_same_outside[of A])
  then show ?case using Cons by simp
qed

lemma dseg_PUT_other:
  assumes "nodes_sep (insert x (set L))" "x \<notin> set L" "k = 0 \<or> k = 4"
  shows "dseg (PUT m (W (x + k)) v) prev p L q = dseg m prev p L q"
proof -
  have b: "x + 8 \<le> 4294967296" using assms(1) by (simp add: nodes_sep_def)
  then have so: "same_outside {x + k ..< x + k + 4} m (PUT m (W (x + k)) v)"
    using assms(3) by (intro same_outside_PUT) auto
  have "\<forall>c \<in> set L. {c ..< c + 8} \<inter> {x + k ..< x + k + 4} = {} \<and> c + 8 \<le> 4294967296"
  proof
    fix c assume c: "c \<in> set L"
    then have "c \<noteq> x" using assms(2) by auto
    then have "c + 8 \<le> x \<or> x + 8 \<le> c" "c + 8 \<le> 4294967296"
      using assms(1) c by (auto simp add: nodes_sep_def)
    then show "{c ..< c + 8} \<inter> {x + k ..< x + k + 4} = {} \<and> c + 8 \<le> 4294967296"
      using assms(3) by auto
  qed
  from dseg_frame[OF so this] show ?thesis .
qed

lemma nodes_sep_mono: "nodes_sep N \<Longrightarrow> M \<subseteq> N \<Longrightarrow> nodes_sep M"
  by (auto simp add: nodes_sep_def)

lemma nodes_sep_W: "nodes_sep N \<Longrightarrow> c \<in> N \<Longrightarrow> W c \<noteq> NULL"
  using W_eq_0_iff[of c] by (auto simp add: nodes_sep_def)

lemma dseg_set_succ:
  assumes "dseg m prev p (L @ [d]) q" "nodes_sep (set (L @ [d]))" "distinct (L @ [d])"
  shows "dseg (PUT m (W (d + 4)) r) prev p (L @ [d]) r"
proof -
  have d8: "d + 8 \<le> 4294967296" using assms(2) by (simp add: nodes_sep_def)
  have s: "nodes_sep (insert d (set L))" "d \<notin> set L" using assms(2,3) by simp_all
  from assms(1) have a: "dseg m prev p L (W d)" "GET m (W d) = last_ptr prev L"
    by (simp_all add: dseg_append)
  have "dseg (PUT m (W (d + 4)) r) prev p L (W d)"
    using a(1) dseg_PUT_other[OF s, of 4] by simp
  moreover have "GET (PUT m (W (d + 4)) r) (W d) = GET m (W d)"
    using d8 by (intro GET_PUT_W) auto
  moreover have "GET (PUT m (W (d + 4)) r) (W (d + 4)) = r" by (rule GET_PUT_same)
  ultimately show ?thesis using a(2) by (simp add: dseg_append)
qed

lemma dseg_set_pred:
  assumes "dseg m prev p (f # L) q" "nodes_sep (set (f # L))" "distinct (f # L)"
  shows "dseg (PUT m (W f) r) r p (f # L) q"
proof -
  have f8: "f + 8 \<le> 4294967296" using assms(2) by (simp add: nodes_sep_def)
  have s: "nodes_sep (insert f (set L))" "f \<notin> set L" using assms(2,3) by simp_all
  from assms(1) have a: "p = W f" "dseg m (W f) (GET m (W (f + 4))) L q" by simp_all
  have "GET (PUT m (W f) r) (W (f + 4)) = GET m (W (f + 4))"
    using f8 by (intro GET_PUT_W) auto
  moreover have "dseg (PUT m (W f) r) (W f) (GET m (W (f + 4))) L q"
    using a(2) dseg_PUT_other[OF s, of 0] by simp
  ultimately show ?thesis using a(1) by (simp add: GET_PUT_same)
qed



subsection \<open>The list table\<close>

lemma seg_slot_W: "seg_slot (seg_list s) i = W (unat (seg_list s) + 4 * i)"
  by (simp add: seg_slot_def W_def)

lemma seg_get_W: "seg_get s i = GET (mem s) (W (unat (seg_list s) + 4 * i))"
  by (simp add: seg_get_def seg_slot_W)

lemma seg_set_W: "seg_set s i v = s\<lparr>mem := PUT (mem s) (W (unat (seg_list s) + 4 * i)) v\<rparr>"
  by (simp add: seg_set_def seg_slot_W)

lemma GET_SUCC_W: "GET_SUCC m (W c) = GET m (W (c + 4))"
  by (simp add: GET_SUCC_def W_def)

lemma SET_SUCC_W: "SET_SUCC m (W c) v = PUT m (W (c + 4)) v"
  by (simp add: SET_SUCC_def W_def)

lemma distinct_concat_nth:
  assumes "distinct (concat Ls)" "i < length Ls" "j < length Ls" "i \<noteq> j"
  shows "set (Ls ! i) \<inter> set (Ls ! j) = {}"
  using assms
proof (induction Ls arbitrary: i j)
  case Nil
  then show ?case by simp
next
  case (Cons L Ls)
  show ?case
  proof (cases i)
    case 0
    then obtain j' where j: "j = Suc j'" using Cons.prems(4) by (cases j) auto
    then have "Ls ! j' \<in> set Ls" using Cons.prems(3) by simp
    then show ?thesis using Cons.prems(1) 0 j by auto
  next
    case (Suc i')
    show ?thesis
    proof (cases j)
      case 0
      have "Ls ! i' \<in> set Ls" using Cons.prems(2) Suc by simp
      then show ?thesis using Cons.prems(1) 0 Suc by auto
    next
      case (Suc j')
      with Cons \<open>i = Suc i'\<close> show ?thesis by simp
    qed
  qed
qed

lemma distinct_concat_nth_distinct:
  "distinct (concat Ls) \<Longrightarrow> i < length Ls \<Longrightarrow> distinct (Ls ! i)"
  by (simp add: distinct_concat_iff)

lemma set_nth_concat: "i < length Ls \<Longrightarrow> set (Ls ! i) \<subseteq> set (concat Ls)"
  by (auto simp add: in_set_conv_nth) (metis nth_mem)



subsection \<open>Removing a node from its list\<close>

lemma concat_update:
  "i < length Ls \<Longrightarrow>
   concat (Ls[i := L]) = concat (take i Ls) @ L @ concat (drop (Suc i) Ls)"
  by (simp add: upd_conv_take_nth_drop)

lemma concat_nth_split:
  "i < length Ls \<Longrightarrow> concat Ls = concat (take i Ls) @ Ls ! i @ concat (drop (Suc i) Ls)"
  using concat_update[of i Ls "Ls ! i"] by simp

lemma ls_remove_concat:
  assumes "distinct (concat Ls)" "i < length Ls" "c \<in> set (Ls ! i)"
  shows "set (concat (ls_remove Ls i c)) = set (concat Ls) - {c}"
    "distinct (concat (ls_remove Ls i c))"
proof -
  let ?A = "concat (take i Ls)" and ?B = "concat (drop (Suc i) Ls)"
  have e: "concat Ls = ?A @ Ls ! i @ ?B" by (rule concat_nth_split[OF assms(2)])
  have r: "concat (ls_remove Ls i c) = ?A @ remove1 c (Ls ! i) @ ?B"
    unfolding ls_remove_def by (rule concat_update[OF assms(2)])
  from assms(1) have d: "distinct ?A" "distinct (Ls ! i)" "distinct ?B"
    "set ?A \<inter> set (Ls ! i) = {}" "set ?A \<inter> set ?B = {}" "set (Ls ! i) \<inter> set ?B = {}"
    unfolding e by auto
  show "distinct (concat (ls_remove Ls i c))"
    unfolding r using d by (auto dest: notin_set_remove1)
  have se: "set (concat Ls) = set ?A \<union> set (Ls ! i) \<union> set ?B"
    by (subst e) auto
  have sr: "set (concat (ls_remove Ls i c)) = set ?A \<union> set (remove1 c (Ls ! i)) \<union> set ?B"
    unfolding r by auto
  show "set (concat (ls_remove Ls i c)) = set (concat Ls) - {c}"
  proof -
    have "c \<notin> set ?A" "c \<notin> set ?B" using d assms(3) by auto
    then show ?thesis
      unfolding se sr using d(2) by (auto simp add: set_remove1_eq)
  qed
qed

lemma delete_node_lists:
  assumes wf: "lists_wf s Ls" and i: "i < LIST_LIMIT" and c: "c \<in> set (Ls ! i)"
    and idx: "get_list_index (GET_SIZE (mem s) (HDRP (W c))) = i"
  shows "lists_wf (delete_node s (W c)) (ls_remove Ls i c)"
    and "same_outside (link_bytes s Ls) (mem s) (mem (delete_node s (W c)))"
    and "delete_node s (W c) = s\<lparr>mem := mem (delete_node s (W c))\<rparr>"
proof -
  let ?lo = "unat (seg_list s)"
  let ?m = "mem s"
  let ?T = "\<lambda>j. ?lo + 4 * j"
  from wf have fl: "free_lists s Ls" and dist: "distinct (concat Ls)"
    and sep: "nodes_sep (set (concat Ls))" and above: "\<forall>c \<in> set (concat Ls). ?lo + 80 \<le> c"
    and tb: "?lo + 80 \<le> 4294967296"
    by (simp_all add: lists_wf_def)
  from fl have len: "length Ls = LIST_LIMIT"
    and dl: "\<And>j. j < LIST_LIMIT \<Longrightarrow> dseg ?m NULL (GET ?m (W (?T j))) (Ls ! j) NULL"
    by (simp_all add: free_lists_def)
  have sub: "set (Ls ! j) \<subseteq> set (concat Ls)" if "j < LIST_LIMIT" for j
    using that len by (intro set_nth_concat) simp
  have di: "distinct (Ls ! i)" using dist i len by (intro distinct_concat_nth_distinct) simp_all
  have nb: "?lo + 80 \<le> d" "d + 8 \<le> 4294967296" if "d \<in> set (concat Ls)" for d
    using that above sep unfolding nodes_sep_def by blast+
  have inl: "d \<in> set (concat Ls)" if "d \<in> set (Ls ! i)" for d
    using sub[OF i] that by blast
  from c obtain L1 L2 where L: "Ls ! i = L1 @ c # L2" by (auto dest: split_list)
  have lastL1: "last L1 \<in> set (concat Ls)" if "L1 \<noteq> []"
    using that by (intro inl) (simp add: L)
  have hdL2: "hd L2 \<in> set (concat Ls)" if "L2 \<noteq> []"
    using that by (intro inl) (simp add: L)
  have inL2: "d \<in> set (concat Ls)" if "d \<in> set L2" for d
    using that by (intro inl) (simp add: L)
  from di have cn: "c \<notin> set L1" "c \<notin> set L2" and d12: "distinct L1" "distinct L2"
    "set L1 \<inter> set L2 = {}" unfolding L by auto
  have sepi: "nodes_sep (set (L1 @ c # L2))"
    using sep sub[OF i] unfolding L by (rule nodes_sep_mono)
  have c8: "c + 8 \<le> 4294967296" "?lo + 80 \<le> c" using nb[OF inl[OF c]] by simp_all
  \<comment> \<open>the links of the node\<close>
  define lp where "lp = last_ptr NULL L1"
  define sc where "sc = hd_ptr L2 NULL"
  from dl[OF i] have s1: "dseg ?m NULL (GET ?m (W (?T i))) L1 (W c)"
    and pc: "GET ?m (W c) = lp" and s2: "dseg ?m (W c) (GET ?m (W (c + 4))) L2 NULL"
    unfolding L by (simp_all add: dseg_append lp_def)
  have scv: "GET ?m (W (c + 4)) = sc" using dseg_hd[OF s2] by (simp add: sc_def)
  have lp0: "lp = NULL \<longleftrightarrow> L1 = []"
  proof (cases L1 rule: rev_cases)
    case Nil then show ?thesis by (simp add: lp_def)
  next
    case (snoc L1' d)
    then have "W d \<noteq> NULL" using sepi by (intro nodes_sep_W[of "set (L1 @ c # L2)"]) simp_all
    then show ?thesis using snoc by (simp add: lp_def)
  qed
  have sc0: "sc = NULL \<longleftrightarrow> L2 = []"
  proof (cases L2)
    case Nil then show ?thesis by (simp add: sc_def)
  next
    case (Cons f L2')
    then have "W f \<noteq> NULL" using sepi by (intro nodes_sep_W[of "set (L1 @ c # L2)"]) simp_all
    then show ?thesis using Cons by (simp add: sc_def)
  qed
  \<comment> \<open>the first write\<close>
  define x1 where "x1 = (if L1 = [] then ?T i else last L1 + 4)"
  define m1 where "m1 = PUT ?m (W x1) sc"
  have x1b: "x1 + 4 \<le> 4294967296" "{x1 ..< x1 + 4} \<subseteq> link_bytes s Ls"
      "x1 + 4 \<le> c \<or> c + 8 \<le> x1"
  proof -
    show "x1 + 4 \<le> 4294967296" "x1 + 4 \<le> c \<or> c + 8 \<le> x1"
    proof -
      have "x1 + 4 \<le> 4294967296 \<and> (x1 + 4 \<le> c \<or> c + 8 \<le> x1)"
      proof (cases "L1 = []")
        case True
        then show ?thesis using i tb c8 by (simp add: x1_def)
      next
        case False
        then have "last L1 \<in> set L1" by simp
        then have "last L1 \<noteq> c" "last L1 \<in> set (L1 @ c # L2)" using cn(1) by auto
        then have "last L1 + 8 \<le> c \<or> c + 8 \<le> last L1" "last L1 + 8 \<le> 4294967296"
          using sepi by (auto simp add: nodes_sep_def)
        then show ?thesis using False by (auto simp add: x1_def)
      qed
      then show "x1 + 4 \<le> 4294967296" "x1 + 4 \<le> c \<or> c + 8 \<le> x1" by simp_all
    qed
    show "{x1 ..< x1 + 4} \<subseteq> link_bytes s Ls"
    proof (cases "L1 = []")
      case True
      then show ?thesis using i by (auto simp add: x1_def link_bytes_def)
    next
      case False
      from lastL1[OF this] show ?thesis using False by (fastforce simp add: x1_def link_bytes_def)
    qed
  qed
  have so1: "same_outside {x1 ..< x1 + 4} ?m m1"
    unfolding m1_def by (rule same_outside_PUT[OF x1b(1)])
  have st1: "(if GET_PRED ?m (W c) \<noteq> NULL
                then s\<lparr>mem := SET_SUCC ?m (GET_PRED ?m (W c)) (GET_SUCC ?m (W c))\<rparr>
                else seg_set s i (GET_SUCC ?m (W c))) = s\<lparr>mem := m1\<rparr>"
  proof (cases "L1 = []")
    case True
    then show ?thesis
      using lp0 by (simp add: GET_PRED_def pc GET_SUCC_W scv seg_set_W m1_def x1_def)
  next
    case False
    then have "lp = W (last L1)" by (simp add: lp_def last_ptr_def)
    then show ?thesis
      using False lp0 by (simp add: GET_PRED_def pc GET_SUCC_W scv SET_SUCC_W m1_def x1_def)
  qed
  have c1: "GET m1 (W c) = lp" "GET m1 (W (c + 4)) = sc"
  proof -
    have "{c ..< c + 4} \<inter> {x1 ..< x1 + 4} = {}" "{c + 4 ..< c + 4 + 4} \<inter> {x1 ..< x1 + 4} = {}"
      using x1b(3) by auto
    then show "GET m1 (W c) = lp" "GET m1 (W (c + 4)) = sc"
      using GET_same_outside[OF so1] c8 pc scv by auto
  qed
  \<comment> \<open>the second write\<close>
  define m2 where "m2 = (if L2 = [] then m1 else PUT m1 (W (hd L2)) lp)"
  have del: "delete_node s (W c) = s\<lparr>mem := m2\<rparr>"
  proof (cases L2)
    case Nil
    then show ?thesis
      unfolding delete_node_def Let_def idx st1
      using sc0 by (simp add: GET_SUCC_W c1 m2_def)
  next
    case (Cons f L2')
    then have "sc = W f" by (simp add: sc_def)
    then show ?thesis
      unfolding delete_node_def Let_def idx st1
      using sc0 Cons by (simp add: GET_SUCC_W GET_PRED_def SET_PRED_def c1 m2_def)
  qed
  define A where "A = {x1 ..< x1 + 4} \<union> (if L2 = [] then {} else {hd L2 ..< hd L2 + 4})"
  have so2: "same_outside A ?m m2"
  proof (cases L2)
    case Nil
    then show ?thesis using so1 by (simp add: A_def m2_def)
  next
    case (Cons f L2')
    have "f + 4 \<le> 4294967296" using sepi Cons by (auto simp add: nodes_sep_def)
    from same_outside_trans[OF so1 same_outside_PUT[OF this, of m1 lp]]
    show ?thesis using Cons by (simp add: A_def m2_def)
  qed
  have Asub: "A \<subseteq> link_bytes s Ls"
  proof (cases L2)
    case Nil
    then show ?thesis using x1b(2) by (simp add: A_def)
  next
    case (Cons f L2')
    then have "f \<in> set (concat Ls)" using hdL2 by auto
    then have "{f ..< f + 4} \<subseteq> link_bytes s Ls" by (fastforce simp add: link_bytes_def)
    then show ?thesis using x1b(2) Cons by (simp add: A_def)
  qed
  \<comment> \<open>the table entries\<close>
  have tab: "GET m2 (W (?T j)) = (if j = i \<and> L1 = [] then sc else GET ?m (W (?T j)))"
    if j: "j < LIST_LIMIT" for j
  proof -
    have tj: "?T j + 4 \<le> ?lo + 80" using j by simp
    have f: "GET m2 (W (?T j)) = GET m1 (W (?T j))"
    proof (cases L2)
      case Nil
      then show ?thesis by (simp add: m2_def)
    next
      case (Cons f L2')
      then have "f \<in> set (concat Ls)" using hdL2 by auto
      from nb[OF this] have "?lo + 80 \<le> f" "f + 4 \<le> 4294967296" by simp_all
      then have "GET (PUT m1 (W f) lp) (W (?T j)) = GET m1 (W (?T j))"
        using tj by (intro GET_PUT_W) auto
      then show ?thesis using Cons by (simp add: m2_def)
    qed
    show ?thesis
    proof (cases "L1 = []")
      case True
      show ?thesis
      proof (cases "j = i")
        case True
        then show ?thesis using \<open>L1 = []\<close> f by (simp add: m1_def x1_def GET_PUT_same)
      next
        case False
        then have "GET m1 (W (?T j)) = GET ?m (W (?T j))"
          unfolding m1_def x1_def using True tj i tb by (intro GET_PUT_W[THEN trans]) auto
        then show ?thesis using False f by simp
      qed
    next
      case False
      from nb[OF lastL1[OF this]] have "?lo + 80 \<le> last L1" "last L1 + 8 \<le> 4294967296"
        by simp_all
      then have "GET m1 (W (?T j)) = GET ?m (W (?T j))"
        unfolding m1_def x1_def using False tj by (intro GET_PUT_W[THEN trans]) auto
      then show ?thesis using False f by simp
    qed
  qed
  \<comment> \<open>the list that held the node\<close>
  have li: "dseg m2 NULL (GET m2 (W (?T i))) (L1 @ L2) NULL"
  proof -
    have a1: "dseg m1 NULL (if L1 = [] then sc else GET ?m (W (?T i))) L1 sc"
    proof (cases L1 rule: rev_cases)
      case Nil then show ?thesis by simp
    next
      case (snoc L1' d)
      have "nodes_sep (set (L1' @ [d]))" "distinct (L1' @ [d])"
        using sepi d12(1) snoc by (auto intro: nodes_sep_mono)
      from dseg_set_succ[OF s1[unfolded snoc] this, of sc]
      show ?thesis using snoc by (simp add: m1_def x1_def)
    qed
    have a2: "dseg m1 (W c) sc L2 NULL"
    proof (cases L1 rule: rev_cases)
      case Nil
      have "\<forall>c' \<in> set L2. {c' ..< c' + 8} \<inter> {x1 ..< x1 + 4} = {} \<and> c' + 8 \<le> 4294967296"
      proof
        fix c' assume "c' \<in> set L2"
        then have "c' \<in> set (concat Ls)" by (rule inL2)
        from nb[OF this] have "?lo + 80 \<le> c'" "c' + 8 \<le> 4294967296" by simp_all
        then show "{c' ..< c' + 8} \<inter> {x1 ..< x1 + 4} = {} \<and> c' + 8 \<le> 4294967296"
          using Nil i by (auto simp add: x1_def)
      qed
      from dseg_frame[OF so1 this] s2 scv show ?thesis by simp
    next
      case (snoc L1' d)
      have "nodes_sep (insert d (set L2))" "d \<notin> set L2"
        using sepi d12(3) snoc by (auto intro: nodes_sep_mono)
      from dseg_PUT_other[OF this, of 4] s2 scv show ?thesis
        using snoc by (simp add: m1_def x1_def)
    qed
    have b1: "dseg m2 NULL (if L1 = [] then sc else GET ?m (W (?T i))) L1 sc"
      and b2: "dseg m2 lp sc L2 NULL"
    proof -
      show "dseg m2 NULL (if L1 = [] then sc else GET ?m (W (?T i))) L1 sc"
      proof (cases L2)
        case Nil then show ?thesis using a1 by (simp add: m2_def)
      next
        case (Cons f L2')
        have "nodes_sep (insert f (set L1))" "f \<notin> set L1"
          using sepi d12(3) Cons by (auto intro: nodes_sep_mono)
        from dseg_PUT_other[OF this, of 0] a1 show ?thesis
          using Cons by (simp add: m2_def)
      qed
      show "dseg m2 lp sc L2 NULL"
      proof (cases L2)
        case Nil then show ?thesis using a2 by (simp add: m2_def)
      next
        case (Cons f L2')
        have "nodes_sep (set (f # L2'))" "distinct (f # L2')"
          using sepi d12(2) Cons by (auto intro: nodes_sep_mono)
        from dseg_set_pred[OF a2[unfolded Cons] this, of lp] show ?thesis
          using Cons by (simp add: m2_def)
      qed
    qed
    show ?thesis
      using b1 b2 tab[OF i] by (simp add: dseg_append sc_def lp_def)
  qed
  \<comment> \<open>the other lists\<close>
  have lj: "dseg m2 NULL (GET m2 (W (?T j))) (Ls ! j) NULL" if j: "j < LIST_LIMIT" "j \<noteq> i" for j
  proof -
    have dj: "set (Ls ! j) \<inter> set (Ls ! i) = {}"
      using dist j i len by (intro distinct_concat_nth) simp_all
    have "\<forall>c' \<in> set (Ls ! j). {c' ..< c' + 8} \<inter> A = {} \<and> c' + 8 \<le> 4294967296"
    proof
      fix c' assume c': "c' \<in> set (Ls ! j)"
      then have cc: "c' \<in> set (concat Ls)" using sub[OF j(1)] by blast
      from nb[OF this] have b: "?lo + 80 \<le> c'" "c' + 8 \<le> 4294967296" by simp_all
      have o: "c' + 8 \<le> d \<or> d + 8 \<le> c'" if "d \<in> set (Ls ! i)" for d
      proof -
        have "d \<noteq> c'" using dj c' that by auto
        moreover have "d \<in> set (concat Ls)" using that by (rule inl)
        ultimately show ?thesis using sep cc unfolding nodes_sep_def by blast
      qed
      have "{c' ..< c' + 8} \<inter> {x1 ..< x1 + 4} = {}"
      proof (cases "L1 = []")
        case True then show ?thesis using b i by (auto simp add: x1_def)
      next
        case False
        then have "last L1 \<in> set (Ls ! i)" using L by simp
        from o[OF this] show ?thesis using False by (auto simp add: x1_def)
      qed
      moreover have "{c' ..< c' + 8} \<inter> {hd L2 ..< hd L2 + 4} = {}" if "L2 \<noteq> []"
      proof -
        have "hd L2 \<in> set (Ls ! i)" using L that by simp
        from o[OF this] show ?thesis by auto
      qed
      ultimately show "{c' ..< c' + 8} \<inter> A = {} \<and> c' + 8 \<le> 4294967296"
        using b by (auto simp add: A_def)
    qed
    from dseg_frame[OF so2 this] dl[OF j(1)] tab[OF j(1)] j(2) show ?thesis by simp
  qed
  have fl': "free_lists (s\<lparr>mem := m2\<rparr>) (ls_remove Ls i c)"
  proof -
    have r: "remove1 c (Ls ! i) = L1 @ L2" using cn by (simp add: L remove1_append)
    have "dseg m2 NULL (GET m2 (W (?T j))) (ls_remove Ls i c ! j) NULL" if "j < LIST_LIMIT" for j
      using that li lj[OF that] len i by (cases "j = i") (simp_all add: ls_remove_def r)
    then show ?thesis using len by (simp add: free_lists_def ls_remove_def)
  qed
  have cs: "set (concat (ls_remove Ls i c)) \<subseteq> set (concat Ls)"
    "distinct (concat (ls_remove Ls i c))"
    using ls_remove_concat[OF dist _ c] i len by simp_all
  show "lists_wf (delete_node s (W c)) (ls_remove Ls i c)"
    unfolding del using fl' cs sep above tb
    by (auto simp add: lists_wf_def intro: nodes_sep_mono)
  show "same_outside (link_bytes s Ls) (mem s) (mem (delete_node s (W c)))"
    unfolding del using same_outside_mono[OF so2 Asub] by simp
  show "delete_node s (W c) = s\<lparr>mem := mem (delete_node s (W c))\<rparr>"
    unfolding del by simp
qed



subsection \<open>Inserting a node at the head of a list\<close>

lemma get_list_index_less: "get_list_index sz < LIST_LIMIT"
  by (simp add: get_list_index_def)

lemma ls_insert_concat:
  assumes "i < length Ls"
  shows "set (concat (ls_insert Ls i c)) = insert c (set (concat Ls))"
    "distinct (concat Ls) \<Longrightarrow> c \<notin> set (concat Ls) \<Longrightarrow> distinct (concat (ls_insert Ls i c))"
proof -
  let ?A = "concat (take i Ls)" and ?B = "concat (drop (Suc i) Ls)"
  have e: "concat Ls = ?A @ Ls ! i @ ?B" by (rule concat_nth_split[OF assms])
  have r: "concat (ls_insert Ls i c) = ?A @ (c # Ls ! i) @ ?B"
    unfolding ls_insert_def by (rule concat_update[OF assms])
  have se: "set (concat Ls) = set ?A \<union> set (Ls ! i) \<union> set ?B"
    by (subst e) auto
  show "set (concat (ls_insert Ls i c)) = insert c (set (concat Ls))"
    unfolding r se by auto
  assume "distinct (concat Ls)" "c \<notin> set (concat Ls)"
  then have "distinct (?A @ Ls ! i @ ?B)" "c \<notin> set ?A \<union> set (Ls ! i) \<union> set ?B"
    using e se by simp_all
  then show "distinct (concat (ls_insert Ls i c))"
    unfolding r by auto
qed

lemma insert_node_lists:
  assumes wf: "lists_wf s Ls" and cn: "c \<notin> set (concat Ls)"
    and sepc: "nodes_sep (insert c (set (concat Ls)))" and ca: "unat (seg_list s) + 80 \<le> c"
    and i: "i = get_list_index sz"
  shows "lists_wf (insert_node s (W c) sz) (ls_insert Ls i c)"
    and "same_outside (link_bytes s (ls_insert Ls i c)) (mem s) (mem (insert_node s (W c) sz))"
    and "insert_node s (W c) sz = s\<lparr>mem := mem (insert_node s (W c) sz)\<rparr>"
proof -
  let ?lo = "unat (seg_list s)"
  let ?m = "mem s"
  let ?T = "\<lambda>j. ?lo + 4 * j"
  let ?L = "Ls ! i"
  have il: "i < LIST_LIMIT" unfolding i by (rule get_list_index_less)
  from wf have fl: "free_lists s Ls" and dist: "distinct (concat Ls)"
    and sep: "nodes_sep (set (concat Ls))" and above: "\<forall>c \<in> set (concat Ls). ?lo + 80 \<le> c"
    and tb: "?lo + 80 \<le> 4294967296"
    by (simp_all add: lists_wf_def)
  from fl have len: "length Ls = LIST_LIMIT"
    and dl: "\<And>j. j < LIST_LIMIT \<Longrightarrow> dseg ?m NULL (GET ?m (W (?T j))) (Ls ! j) NULL"
    by (simp_all add: free_lists_def)
  have sub: "set (Ls ! j) \<subseteq> set (concat Ls)" if "j < LIST_LIMIT" for j
    using that len by (intro set_nth_concat) simp
  have nb: "?lo + 80 \<le> d" "d + 8 \<le> 4294967296" if "d \<in> set (concat Ls)" for d
    using that above sep unfolding nodes_sep_def by blast+
  have inl: "d \<in> set (concat Ls)" if "d \<in> set ?L" for d
    using sub[OF il] that by blast
  have hdL: "hd ?L \<in> set (concat Ls)" if "?L \<noteq> []"
    using that by (intro inl) simp
  have hdC: "f \<in> set (concat Ls)" if "?L = f # L'" for f L'
    using that by (intro inl) simp
  have c8: "c + 8 \<le> 4294967296" "0 < c" using sepc by (simp_all add: nodes_sep_def)
  have co: "c + 8 \<le> d \<or> d + 8 \<le> c" if "d \<in> set (concat Ls)" for d
  proof -
    have "d \<noteq> c" using that cn by auto
    then show ?thesis using sepc that unfolding nodes_sep_def by blast
  qed
  have Wc: "W c \<noteq> NULL" using c8 W_eq_0_iff[of c] by simp
  define root where "root = hd_ptr ?L NULL"
  have rt: "seg_get s i = root"
    using dseg_hd[OF dl[OF il]] by (simp add: seg_get_W root_def)
  have r0: "root = NULL \<longleftrightarrow> ?L = []"
  proof (cases ?L)
    case Nil then show ?thesis by (simp add: root_def)
  next
    case (Cons f L')
    then have "f \<in> set (concat Ls)" by (rule hdC)
    then have "W f \<noteq> NULL" using sep by (rule nodes_sep_W[rotated])
    then show ?thesis using Cons by (simp add: root_def)
  qed
  define m2 where "m2 = PUT (PUT ?m (W (c + 4)) root) (W c) NULL"
  define m3 where "m3 = (if ?L = [] then m2 else PUT m2 (W (hd ?L)) (W c))"
  define m4 where "m4 = PUT m3 (W (?T i)) (W c)"
  have ins: "insert_node s (W c) sz = s\<lparr>mem := m4\<rparr>"
  proof (cases ?L)
    case Nil
    then show ?thesis
      unfolding insert_node_def Let_def i[symmetric] rt
      using r0 by (simp add: SET_SUCC_W SET_PRED_def seg_set_W m2_def m3_def m4_def)
  next
    case (Cons f L')
    then have "root = W f" by (simp add: root_def)
    then show ?thesis
      unfolding insert_node_def Let_def i[symmetric] rt
      using r0 Cons by (simp add: SET_SUCC_W SET_PRED_def seg_set_W m2_def m3_def m4_def)
  qed
  define A where "A = {c ..< c + 8} \<union> (if ?L = [] then {} else {hd ?L ..< hd ?L + 4}) \<union> {?T i ..< ?T i + 4}"
  have so2: "same_outside {c ..< c + 8} ?m m2"
  proof -
    have a: "c + 4 + 4 \<le> 4294967296" "c + 4 \<le> 4294967296" using c8 by simp_all
    have "same_outside ({c + 4 ..< c + 4 + 4} \<union> {c ..< c + 4}) ?m m2"
      unfolding m2_def
      by (rule same_outside_trans[OF same_outside_PUT[OF a(1)] same_outside_PUT[OF a(2)]])
    then show ?thesis by (rule same_outside_mono) auto
  qed
  have so3: "same_outside ({c ..< c + 8} \<union> (if ?L = [] then {} else {hd ?L ..< hd ?L + 4})) ?m m3"
  proof (cases ?L)
    case Nil then show ?thesis using so2 by (simp add: m3_def)
  next
    case (Cons f L')
    then have "f \<in> set (concat Ls)" by (rule hdC)
    from nb[OF this] have "f + 4 \<le> 4294967296" by simp
    from same_outside_trans[OF so2 same_outside_PUT[OF this, of m2 "W c"]]
    show ?thesis using Cons by (simp add: m3_def)
  qed
  have so4: "same_outside A ?m m4"
  proof -
    have "?T i + 4 \<le> 4294967296" using il tb by simp
    from same_outside_trans[OF so3 same_outside_PUT[OF this, of m3 "W c"]]
    show ?thesis by (simp add: A_def m4_def)
  qed
  have Asub: "A \<subseteq> link_bytes s (ls_insert Ls i c)"
  proof -
    have sc: "set (concat (ls_insert Ls i c)) = insert c (set (concat Ls))"
      using il len by (intro ls_insert_concat(1)) simp
    have "{c ..< c + 8} \<subseteq> link_bytes s (ls_insert Ls i c)"
      unfolding link_bytes_def sc by auto
    moreover have "{hd ?L ..< hd ?L + 4} \<subseteq> link_bytes s (ls_insert Ls i c)" if "?L \<noteq> []"
    proof -
      have "hd ?L \<in> set (concat Ls)" using that by (rule hdL)
      then show ?thesis unfolding link_bytes_def sc by fastforce
    qed
    moreover have "{?T i ..< ?T i + 4} \<subseteq> link_bytes s (ls_insert Ls i c)"
      using il by (auto simp add: link_bytes_def)
    ultimately show ?thesis by (auto simp add: A_def)
  qed
  \<comment> \<open>the table entries\<close>
  have tab: "GET m4 (W (?T j)) = (if j = i then W c else GET ?m (W (?T j)))"
    if j: "j < LIST_LIMIT" for j
  proof (cases "j = i")
    case True
    then show ?thesis by (simp add: m4_def GET_PUT_same)
  next
    case False
    have tj: "?T j + 4 \<le> ?lo + 80" "?T i + 4 \<le> ?lo + 80" using j il by simp_all
    have "{?T j ..< ?T j + 4} \<inter> A = {}"
    proof -
      have "{?T j ..< ?T j + 4} \<inter> {hd ?L ..< hd ?L + 4} = {}" if "?L \<noteq> []"
      proof -
        have "hd ?L \<in> set (concat Ls)" using that by (rule hdL)
        from nb[OF this] tj show ?thesis by auto
      qed
      then show ?thesis using tj ca False by (auto simp add: A_def)
    qed
    from GET_same_outside[OF so4 this] tj tb False show ?thesis by simp
  qed
  \<comment> \<open>the list that receives the node\<close>
  have li: "dseg m4 NULL (GET m4 (W (?T i))) (c # ?L) NULL"
  proof -
    have t4: "{t ..< t + 4} \<inter> {?T i ..< ?T i + 4} = {}" if "?lo + 80 \<le> t" for t
      using that il by auto
    have g1: "GET m4 (W c) = NULL"
    proof -
      have "GET m2 (W c) = NULL" by (simp add: m2_def GET_PUT_same)
      moreover have "GET m3 (W c) = GET m2 (W c)"
      proof (cases ?L)
        case Nil then show ?thesis by (simp add: m3_def)
      next
        case (Cons f L')
        then have "f \<in> set (concat Ls)" by (rule hdC)
        from co[OF this] nb[OF this] c8 have "GET (PUT m2 (W f) (W c)) (W c) = GET m2 (W c)"
          by (intro GET_PUT_W) auto
        then show ?thesis using Cons by (simp add: m3_def)
      qed
      moreover have "GET m4 (W c) = GET m3 (W c)"
        unfolding m4_def using il ca c8 tb by (intro GET_PUT_W) auto
      ultimately show ?thesis by simp
    qed
    have g2: "GET m4 (W (c + 4)) = root"
    proof -
      have "GET m2 (W (c + 4)) = root"
        unfolding m2_def using c8 by (subst GET_PUT_W) (auto simp add: GET_PUT_same)
      moreover have "GET m3 (W (c + 4)) = GET m2 (W (c + 4))"
      proof (cases ?L)
        case Nil then show ?thesis by (simp add: m3_def)
      next
        case (Cons f L')
        then have "f \<in> set (concat Ls)" by (rule hdC)
        from co[OF this] nb[OF this] c8 have "GET (PUT m2 (W f) (W c)) (W (c + 4)) = GET m2 (W (c + 4))"
          by (intro GET_PUT_W) auto
        then show ?thesis using Cons by (simp add: m3_def)
      qed
      moreover have "GET m4 (W (c + 4)) = GET m3 (W (c + 4))"
        unfolding m4_def using il ca c8 tb by (intro GET_PUT_W) auto
      ultimately show ?thesis by simp
    qed
    have g3: "dseg m4 (W c) root ?L NULL"
    proof -
      have d0: "dseg ?m NULL root ?L NULL" using dl[OF il] rt by (simp add: seg_get_W)
      have sL: "nodes_sep (insert c (set ?L))" "c \<notin> set ?L"
        using sepc cn sub[OF il] by (auto intro: nodes_sep_mono)
      have d2: "dseg m2 NULL root ?L NULL"
        unfolding m2_def using d0 dseg_PUT_other[OF sL, of 4] dseg_PUT_other[OF sL, of 0] by simp
      have d3: "dseg m3 (W c) root ?L NULL"
      proof (cases ?L)
        case Nil then show ?thesis using d2 by (simp add: m3_def)
      next
        case (Cons f L')
        have "nodes_sep (set (f # L'))" "distinct (f # L')"
          using sep sub[OF il] dist il len Cons distinct_concat_nth_distinct[of Ls i]
          by (auto intro: nodes_sep_mono)
        from dseg_set_pred[OF d2[unfolded Cons] this, of "W c"] show ?thesis
          using Cons by (simp add: m3_def)
      qed
      have "\<forall>c' \<in> set ?L. {c' ..< c' + 8} \<inter> {?T i ..< ?T i + 4} = {} \<and> c' + 8 \<le> 4294967296"
      proof
        fix c' assume "c' \<in> set ?L"
        then have "c' \<in> set (concat Ls)" by (rule inl)
        from nb[OF this] il show "{c' ..< c' + 8} \<inter> {?T i ..< ?T i + 4} = {} \<and> c' + 8 \<le> 4294967296"
          by auto
      qed
      moreover have "same_outside {?T i ..< ?T i + 4} m3 m4"
        unfolding m4_def using il tb by (intro same_outside_PUT) simp
      ultimately show ?thesis using d3 dseg_frame by blast
    qed
    show ?thesis using g1 g2 g3 tab[OF il] by simp
  qed
  \<comment> \<open>the other lists\<close>
  have lj: "dseg m4 NULL (GET m4 (W (?T j))) (Ls ! j) NULL" if j: "j < LIST_LIMIT" "j \<noteq> i" for j
  proof -
    have dj: "set (Ls ! j) \<inter> set ?L = {}"
      using dist j il len by (intro distinct_concat_nth) simp_all
    have "\<forall>c' \<in> set (Ls ! j). {c' ..< c' + 8} \<inter> A = {} \<and> c' + 8 \<le> 4294967296"
    proof
      fix c' assume c': "c' \<in> set (Ls ! j)"
      then have cc: "c' \<in> set (concat Ls)" using sub[OF j(1)] by blast
      note b = nb[OF cc]
      have "{c' ..< c' + 8} \<inter> {hd ?L ..< hd ?L + 4} = {}" if "?L \<noteq> []"
      proof -
        have h: "hd ?L \<in> set ?L" using that by simp
        then have "hd ?L \<noteq> c'" using dj c' by auto
        moreover have "hd ?L \<in> set (concat Ls)" using that by (rule hdL)
        ultimately have "c' + 8 \<le> hd ?L \<or> hd ?L + 8 \<le> c'"
          using sep cc unfolding nodes_sep_def by blast
        then show ?thesis by auto
      qed
      then show "{c' ..< c' + 8} \<inter> A = {} \<and> c' + 8 \<le> 4294967296"
        using b co[OF cc] il by (auto simp add: A_def)
    qed
    from dseg_frame[OF so4 this] dl[OF j(1)] tab[OF j(1)] j(2) show ?thesis by simp
  qed
  have fl': "free_lists (s\<lparr>mem := m4\<rparr>) (ls_insert Ls i c)"
  proof -
    have "dseg m4 NULL (GET m4 (W (?T j))) (ls_insert Ls i c ! j) NULL" if "j < LIST_LIMIT" for j
      using that li lj[OF that] len il by (cases "j = i") (simp_all add: ls_insert_def)
    then show ?thesis using len by (simp add: free_lists_def ls_insert_def)
  qed
  have cs: "set (concat (ls_insert Ls i c)) = insert c (set (concat Ls))"
    "distinct (concat (ls_insert Ls i c))"
    using ls_insert_concat[of i Ls c] dist cn il len by simp_all
  show "lists_wf (insert_node s (W c) sz) (ls_insert Ls i c)"
    unfolding ins using fl' cs sepc above ca tb
    by (simp add: lists_wf_def)
  show "same_outside (link_bytes s (ls_insert Ls i c)) (mem s) (mem (insert_node s (W c) sz))"
    unfolding ins using same_outside_mono[OF so4 Asub] by simp
  show "insert_node s (W c) sz = s\<lparr>mem := mem (insert_node s (W c) sz)\<rparr>"
    unfolding ins by simp
qed



subsection \<open>Free lists over a well-formed heap\<close>

lemma block_addrs_sep:
  assumes hb: "heap_blocks s B" and N: "N \<subseteq> fst ` set B"
  shows "nodes_sep N" and "\<forall>c \<in> N. unat (seg_list s) + 96 \<le> c"
proof -
  from hb have ct: "contig (unat (seg_list s) + 96) B (unat (mem_brk s))"
    by (simp add: heap_blocks_def Let_def)
  have blk: "\<exists>n al. (c, n, al) \<in> set B" if "c \<in> N" for c
    using that N by force
  have b: "0 < c \<and> c + 8 \<le> 4294967296 \<and> unat (seg_list s) + 96 \<le> c" if "c \<in> N" for c
  proof -
    from blk[OF that] obtain n al where m: "(c, n, al) \<in> set B" by blast
    from heap_blocks_mem(1,3,5)[OF hb m] show ?thesis by simp
  qed
  have d: "c + 8 \<le> d \<or> d + 8 \<le> c" if "c \<in> N" "d \<in> N" "c \<noteq> d" for c d
  proof -
    from blk[OF that(1)] obtain n al where m: "(c, n, al) \<in> set B" by blast
    from blk[OF that(2)] obtain n' al' where m': "(d, n', al') \<in> set B" by blast
    from contig_disjoint[OF ct m m'] that(3) heap_blocks_mem(3)[OF hb m] heap_blocks_mem(3)[OF hb m']
    show ?thesis by auto
  qed
  show "nodes_sep N" unfolding nodes_sep_def using b d by blast
  show "\<forall>c \<in> N. unat (seg_list s) + 96 \<le> c" using b by blast
qed

lemma listed_block:
  assumes "listed_ok B Ls" "i < length Ls" "c \<in> set (Ls ! i)"
  shows "\<exists>n. (c, n, False) \<in> set B \<and> cls n = i"
proof -
  from assms obtain b where b: "b \<in> set B" "fst b = c" "\<not> snd (snd b)" "cls (fst (snd b)) = i"
    unfolding listed_ok_def by fastforce
  obtain p n al where e: "b = (p, n, al)" by (cases b)
  from b have "(c, n, False) \<in> set B" "cls n = i" unfolding e by simp_all
  then show ?thesis by blast
qed

lemma listed_addrs:
  assumes "listed_ok B Ls"
  shows "set (concat Ls) \<subseteq> fst ` set B"
proof
  fix c assume "c \<in> set (concat Ls)"
  then obtain L where "L \<in> set Ls" "c \<in> set L" by auto
  then obtain i where "i < length Ls" "c \<in> set (Ls ! i)"
    by (metis in_set_conv_nth)
  from listed_block[OF assms this] show "c \<in> fst ` set B" by force
qed

lemma heap_partial_lists_wf:
  assumes "heap_partial s B Ls"
  shows "lists_wf s Ls"
proof -
  from assms have hb: "heap_blocks s B" and fl: "free_lists s Ls" and lo: "listed_ok B Ls"
    by (simp_all add: heap_partial_def)
  note s = block_addrs_sep[OF hb listed_addrs[OF lo]]
  have "unat (seg_list s) + 80 \<le> 4294967296"
    using heap_blocks_bounds[OF hb] unat32_less[of "mem_brk s"] by simp
  moreover have "\<forall>c \<in> set (concat Ls). unat (seg_list s) + 80 \<le> c"
  proof
    fix c assume "c \<in> set (concat Ls)"
    with s(2) have "unat (seg_list s) + 96 \<le> c" by blast
    then show "unat (seg_list s) + 80 \<le> c" by simp
  qed
  ultimately show ?thesis
    using fl lo s(1) by (simp add: lists_wf_def listed_ok_def)
qed

lemma links_avoid_tags:
  assumes hb: "heap_blocks s B" and N: "set (concat Ls) \<subseteq> fst ` set B"
  shows "\<forall>t \<in> tag_slots s B. {t ..< t + 4} \<inter> link_bytes s Ls = {}"
proof
  fix t assume t: "t \<in> tag_slots s B"
  let ?lo = "unat (seg_list s)" and ?e = "unat (mem_brk s)"
  from hb have ct: "contig (?lo + 96) B ?e" by (simp add: heap_blocks_def Let_def)
  note e = heap_blocks_bounds[OF hb]
  have tl: "?lo + 84 \<le> t"
  proof -
    have "?lo + 84 \<le> p - 4 \<and> ?lo + 84 \<le> p + n - 8" if "(p, n, al) \<in> set B" for p n al
      using heap_blocks_mem(1,3)[OF hb that] by linarith
    then show ?thesis using t e by (fastforce simp add: tag_slots_def)
  qed
  have node: "{t ..< t + 4} \<inter> {c ..< c + 8} = {}" if c: "c \<in> set (concat Ls)" for c
  proof -
    from c N obtain n al where m: "(c, n, al) \<in> set B" by force
    note h = heap_blocks_mem(1,2,3)[OF hb m]
    have o: "t + 4 \<le> c \<or> c + 8 \<le> t"
    proof -
      consider "t = ?lo + 84 \<or> t = ?lo + 88" | "t = ?e - 4"
        | p' n' al' where "(p', n', al') \<in> set B" "t = p' - 4 \<or> t = p' + n' - 8"
        using t by (fastforce simp add: tag_slots_def)
      then show ?thesis
      proof cases
        case 1 then show ?thesis using h by auto
      next
        case 2 then show ?thesis using h by auto
      next
        case 3
        note h' = heap_blocks_mem(1,2,3)[OF hb 3(1)]
        from contig_disjoint[OF ct m 3(1)] show ?thesis using 3(2) h h' by auto
      qed
    qed
    then show ?thesis by auto
  qed
  have "{t ..< t + 4} \<inter> {?lo ..< ?lo + 80} = {}" using tl by auto
  then show "{t ..< t + 4} \<inter> link_bytes s Ls = {}"
    using node unfolding link_bytes_def by blast
qed



subsection \<open>List operations on the heap\<close>

lemma ls_remove_nth:
  "i < length Ls \<Longrightarrow> j < length Ls \<Longrightarrow>
   ls_remove Ls i c ! j = (if j = i then remove1 c (Ls ! i) else Ls ! j)"
  by (simp add: ls_remove_def)

lemma ls_insert_nth:
  "i < length Ls \<Longrightarrow> j < length Ls \<Longrightarrow>
   ls_insert Ls i c ! j = (if j = i then c # Ls ! i else Ls ! j)"
  by (simp add: ls_insert_def)

lemma listed_ok_remove:
  assumes "listed_ok B Ls" "i < length Ls" "c \<in> set (Ls ! i)"
  shows "listed_ok B (ls_remove Ls i c)"
proof -
  have d: "distinct (concat (ls_remove Ls i c))"
    using assms by (intro ls_remove_concat(2)) (simp_all add: listed_ok_def)
  have "\<exists>b \<in> set B. fst b = x \<and> \<not> snd (snd b) \<and> cls (fst (snd b)) = j"
    if "j < length Ls" "x \<in> set (ls_remove Ls i c ! j)" for j x
  proof -
    have "x \<in> set (Ls ! j)"
      using that assms(2) set_remove1_subset[of c "Ls ! i"]
      by (auto simp add: ls_remove_nth split: if_splits)
    then show ?thesis using assms(1) that(1) unfolding listed_ok_def by auto
  qed
  then show ?thesis using d unfolding listed_ok_def by (simp add: ls_remove_def)
qed

lemma listed_ok_insert:
  assumes "listed_ok B Ls" "cls n < length Ls" "(c, n, False) \<in> set B" "c \<notin> set (concat Ls)"
  shows "listed_ok B (ls_insert Ls (cls n) c)"
proof -
  have d: "distinct (concat (ls_insert Ls (cls n) c))"
    using assms by (intro ls_insert_concat(2)) (simp_all add: listed_ok_def)
  have "\<exists>b \<in> set B. fst b = x \<and> \<not> snd (snd b) \<and> cls (fst (snd b)) = j"
    if "j < length Ls" "x \<in> set (ls_insert Ls (cls n) c ! j)" for j x
  proof (cases "j = cls n \<and> x = c")
    case True
    then show ?thesis using assms(3) by force
  next
    case False
    then have "x \<in> set (Ls ! j)"
      using that assms(2) by (auto simp add: ls_insert_nth split: if_splits)
    then show ?thesis using assms(1) that(1) unfolding listed_ok_def by auto
  qed
  then show ?thesis using d unfolding listed_ok_def by (simp add: ls_insert_def)
qed

lemma cls_less: "cls n < LIST_LIMIT"
  unfolding cls_def by (rule get_list_index_less)

lemma free_lists_length: "free_lists s Ls \<Longrightarrow> length Ls = LIST_LIMIT"
  by (simp add: free_lists_def)

lemma delete_node_heap:
  assumes hp: "heap_partial s B Ls" and i: "i < LIST_LIMIT" and c: "c \<in> set (Ls ! i)"
  shows "heap_partial (delete_node s (W c)) B (ls_remove Ls i c)"
    and "same_outside (link_bytes s Ls) (mem s) (mem (delete_node s (W c)))"
    and "delete_node s (W c) = s\<lparr>mem := mem (delete_node s (W c))\<rparr>"
proof -
  from hp have hb: "heap_blocks s B" and fl: "free_lists s Ls" and lo: "listed_ok B Ls"
    by (simp_all add: heap_partial_def)
  have len: "length Ls = LIST_LIMIT" using fl by (rule free_lists_length)
  have "i < length Ls" using i len by simp
  from listed_block[OF lo this c] obtain n where n: "(c, n, False) \<in> set B" "cls n = i"
    by blast
  have idx: "get_list_index (GET_SIZE (mem s) (HDRP (W c))) = i"
    using heap_blocks_macros(1)[OF hb n(1)] n(2) by (simp add: cls_def)
  note d = delete_node_lists[OF heap_partial_lists_wf[OF hp] i c idx]
  show "same_outside (link_bytes s Ls) (mem s) (mem (delete_node s (W c)))" by (rule d(2))
  show "delete_node s (W c) = s\<lparr>mem := mem (delete_node s (W c))\<rparr>" by (rule d(3))
  have "heap_blocks (s\<lparr>mem := mem (delete_node s (W c))\<rparr>) B"
    using hb d(2) links_avoid_tags[OF hb listed_addrs[OF lo]] by (rule heap_blocks_frame)
  then have "heap_blocks (delete_node s (W c)) B" using d(3) by simp
  moreover have "free_lists (delete_node s (W c)) (ls_remove Ls i c)"
    using d(1) by (simp add: lists_wf_def)
  moreover have "listed_ok B (ls_remove Ls i c)"
    using lo _ c by (rule listed_ok_remove) (simp add: len i)
  ultimately show "heap_partial (delete_node s (W c)) B (ls_remove Ls i c)"
    by (simp add: heap_partial_def)
qed

lemma insert_node_heap:
  assumes hp: "heap_partial s B Ls" and b: "(c, n, False) \<in> set B" and cn: "c \<notin> set (concat Ls)"
  shows "heap_partial (insert_node s (W c) (W n)) B (ls_insert Ls (cls n) c)"
    and "insert_node s (W c) (W n) = s\<lparr>mem := mem (insert_node s (W c) (W n))\<rparr>"
proof -
  from hp have hb: "heap_blocks s B" and fl: "free_lists s Ls" and lo: "listed_ok B Ls"
    by (simp_all add: heap_partial_def)
  have len: "length Ls = LIST_LIMIT" using fl by (rule free_lists_length)
  have lo': "listed_ok B (ls_insert Ls (cls n) c)"
    using lo _ b cn by (rule listed_ok_insert) (simp add: len cls_less)
  have "c \<in> fst ` set B" using b by force
  then have "insert c (set (concat Ls)) \<subseteq> fst ` set B"
    using listed_addrs[OF lo] by blast
  note s = block_addrs_sep[OF hb this]
  have ca: "unat (seg_list s) + 80 \<le> c" using s(2) by simp
  note d = insert_node_lists[OF heap_partial_lists_wf[OF hp] cn s(1) ca, of "cls n" "W n"]
  have e: "cls n = get_list_index (W n)" by (simp add: cls_def)
  show r: "insert_node s (W c) (W n) = s\<lparr>mem := mem (insert_node s (W c) (W n))\<rparr>"
    by (rule d(3)[OF e])
  have "heap_blocks (s\<lparr>mem := mem (insert_node s (W c) (W n))\<rparr>) B"
    using hb d(2)[OF e] links_avoid_tags[OF hb listed_addrs[OF lo']] by (rule heap_blocks_frame)
  then have "heap_blocks (insert_node s (W c) (W n)) B" using r by simp
  moreover have "free_lists (insert_node s (W c) (W n)) (ls_insert Ls (cls n) c)"
    using d(1)[OF e] by (simp add: lists_wf_def)
  ultimately show "heap_partial (insert_node s (W c) (W n)) B (ls_insert Ls (cls n) c)"
    using lo' by (simp add: heap_partial_def)
qed



subsection \<open>Rewriting the tags of a run of unlisted blocks\<close>

lemma contig_split3:
  assumes "contig a (B1 @ M @ B2) e" "contig a B1 x"
  shows "\<exists>y. contig x M y \<and> contig y B2 e"
proof -
  from assms(1) obtain c where c: "contig a B1 c" "contig c (M @ B2) e"
    by (auto simp add: contig_append)
  have "c = x" using c(1) assms(2) by (rule contig_end_unique)
  then show ?thesis using c(2) by (auto simp add: contig_append)
qed

lemma retag_mid:
  assumes hp: "heap_partial s (B1 @ old @ B2) Ls"
    and x: "contig (unat (seg_list s) + 96) B1 x" and o: "contig x old y" and nw: "contig x new y"
    and so: "same_outside {x - 4 ..< y - 4} (mem s) m'"
    and tg: "\<forall>b \<in> set new. tagged m' b"
    and unl: "\<forall>b \<in> set old. fst b \<notin> set (concat Ls)"
  shows "heap_partial (s\<lparr>mem := m'\<rparr>) (B1 @ new @ B2) Ls"
proof -
  let ?lo = "unat (seg_list s)" and ?e = "unat (mem_brk s)"
  let ?R = "{x - 4 ..< y - 4}"
  from hp have hb: "heap_blocks s (B1 @ old @ B2)" and fl: "free_lists s Ls"
    and lo: "listed_ok (B1 @ old @ B2) Ls"
    by (simp_all add: heap_partial_def)
  from hb have ct: "contig (?lo + 96) (B1 @ old @ B2) ?e" by (simp add: heap_blocks_def Let_def)
  from contig_split3[OF ct x] obtain y' where y': "contig x old y'" "contig y' B2 ?e" by blast
  have "y' = y" using y'(1) o by (rule contig_end_unique)
  then have c2: "contig y B2 ?e" using y'(2) by simp
  have xl: "?lo + 96 \<le> x" using x by (rule contig_le)
  have ye: "y \<le> ?e" using c2 by (rule contig_le)
  have e32: "?e < 4294967296" by (rule unat32_less)
  have xy: "x \<le> y" using o by (rule contig_le)
  have ct': "contig (?lo + 96) (B1 @ new @ B2) ?e"
    using x nw c2 by (auto simp add: contig_append)
  have g: "GET m' (W t) = GET (mem s) (W t)" if "t + 4 \<le> x - 4 \<or> y - 4 \<le> t" "t + 4 \<le> 4294967296" for t
    using so _ that(2) by (rule GET_same_outside) (use that(1) in auto)
  have in1: "p + n \<le> x \<and> 16 \<le> n" if "(p, n, al) \<in> set B1" for p n al
    using contig_mem[OF x that] by simp
  have in2: "y \<le> p \<and> p + n \<le> ?e \<and> 16 \<le> n" if "(p, n, al) \<in> set B2" for p n al
    using contig_mem[OF c2 that] by simp
  have tb: "tagged m' b" if "b \<in> set B1 \<or> b \<in> set B2" for b
  proof -
    obtain p n al where b: "b = (p, n, al)" by (cases b)
    have m: "(p, n, al) \<in> set (B1 @ old @ B2)" using that b by auto
    note h = heap_blocks_mem[OF hb m]
    have "GET m' (W (p - 4)) = GET (mem s) (W (p - 4))"
      "GET m' (W (p + n - 8)) = GET (mem s) (W (p + n - 8))"
      using that in1[of p n al] in2[of p n al] h(5) unfolding b by (auto intro!: g)
    then show ?thesis using h(6,7) by (simp add: tagged_def b)
  qed
  have hb': "heap_blocks (s\<lparr>mem := m'\<rparr>) (B1 @ new @ B2)"
  proof -
    have "GET m' (W (?lo + 84)) = GET (mem s) (W (?lo + 84))"
      "GET m' (W (?lo + 88)) = GET (mem s) (W (?lo + 88))"
      "GET m' (W (?e - 4)) = GET (mem s) (W (?e - 4))"
      using xl xy ye e32 by (auto intro!: g)
    then show ?thesis
      using hb ct' tb tg by (auto simp add: heap_blocks_def Let_def)
  qed
  have node: "{c ..< c + 8} \<inter> ?R = {} \<and> c + 8 \<le> 4294967296
      \<and> (\<exists>b \<in> set (B1 @ new @ B2). fst b = c \<and> \<not> snd (snd b) \<and> cls (fst (snd b)) = i)"
    if "i < length Ls" "c \<in> set (Ls ! i)" for i c
  proof -
    from listed_block[OF lo that] obtain n where n: "(c, n, False) \<in> set (B1 @ old @ B2)" "cls n = i"
      by blast
    have "c \<in> set (concat Ls)" using that set_nth_concat by blast
    then have "(c, n, False) \<notin> set old" using unl by force
    then have m: "(c, n, False) \<in> set B1 \<or> (c, n, False) \<in> set B2" using n(1) by auto
    note h = heap_blocks_mem(3,5)[OF hb n(1)]
    have "{c ..< c + 8} \<inter> ?R = {}" using m in1[of c n False] in2[of c n False] by auto
    moreover have "\<exists>b \<in> set (B1 @ new @ B2). fst b = c \<and> \<not> snd (snd b) \<and> cls (fst (snd b)) = i"
      using m n(2) by force
    ultimately show ?thesis using h by simp
  qed
  have len: "length Ls = LIST_LIMIT" using fl by (rule free_lists_length)
  have fl': "free_lists (s\<lparr>mem := m'\<rparr>) Ls"
  proof -
    have "dseg m' NULL (GET m' (W (?lo + 4 * j))) (Ls ! j) NULL" if j: "j < LIST_LIMIT" for j
    proof -
      have "GET m' (W (?lo + 4 * j)) = GET (mem s) (W (?lo + 4 * j))"
        using j xl xy e32 ye by (intro g) auto
      moreover have jl: "j < length Ls" using j len by simp
      have "\<forall>c \<in> set (Ls ! j). {c ..< c + 8} \<inter> ?R = {} \<and> c + 8 \<le> 4294967296"
      proof
        fix c assume "c \<in> set (Ls ! j)"
        from node[OF jl this] show "{c ..< c + 8} \<inter> ?R = {} \<and> c + 8 \<le> 4294967296" by simp
      qed
      then have "dseg m' NULL p (Ls ! j) NULL = dseg (mem s) NULL p (Ls ! j) NULL" for p
        using so by (intro dseg_frame)
      ultimately show ?thesis using fl j by (simp add: free_lists_def)
    qed
    then show ?thesis using len by (simp add: free_lists_def)
  qed
  have lo': "listed_ok (B1 @ new @ B2) Ls"
    using lo node unfolding listed_ok_def by auto
  show ?thesis using hb' fl' lo' by (simp add: heap_partial_def)
qed



subsection \<open>Adjacent free blocks and listed blocks\<close>

lemma naf_cons:
  "no_adjacent_free (b # B) = (no_adjacent_free B \<and> (B = [] \<or> snd (snd b) \<or> snd (snd (hd B))))"
  by (cases B) auto

lemma naf_append:
  "no_adjacent_free (B1 @ b # B2) = (no_adjacent_free (B1 @ [b]) \<and> no_adjacent_free (b # B2))"
  by (induction B1 rule: no_adjacent_free.induct) auto

lemma naf_snoc:
  "no_adjacent_free (B1 @ [b])
     = (no_adjacent_free B1 \<and> (B1 = [] \<or> snd (snd (last B1)) \<or> snd (snd b)))"
  by (induction B1 rule: no_adjacent_free.induct) auto

lemma heap_blocks_contig:
  "heap_blocks s B \<Longrightarrow> contig (unat (seg_list s) + 96) B (unat (mem_brk s))"
  by (simp add: heap_blocks_def Let_def)

lemma in_class:
  assumes hp: "heap_partial s B Ls" and al: "all_listed B Ls" and b: "(a, n, False) \<in> set B"
  shows "a \<in> set (Ls ! cls n)"
proof -
  from hp have hb: "heap_blocks s B" and lo: "listed_ok B Ls" by (simp_all add: heap_partial_def)
  have "a \<in> set (concat Ls)" using al b by (force simp add: all_listed_def)
  then obtain L where L: "L \<in> set Ls" "a \<in> set L" by auto
  then obtain i where i: "i < length Ls" "L = Ls ! i" by (auto simp add: in_set_conv_nth)
  have ai: "a \<in> set (Ls ! i)" using L(2) i(2) by simp
  from listed_block[OF lo i(1) ai] obtain n' where n': "(a, n', False) \<in> set B" "cls n' = i"
    by blast
  have "n = n'" using contig_addr_unique[OF heap_blocks_contig[OF hb] b n'(1)] by simp
  then show ?thesis using ai n'(2) by simp
qed

lemma allocated_unlisted:
  assumes hp: "heap_partial s B Ls" and b: "(a, n, True) \<in> set B"
  shows "a \<notin> set (concat Ls)"
proof
  assume "a \<in> set (concat Ls)"
  then obtain L where L: "L \<in> set Ls" "a \<in> set L" by auto
  then obtain i where i: "i < length Ls" "L = Ls ! i" by (auto simp add: in_set_conv_nth)
  from hp have hb: "heap_blocks s B" and lo: "listed_ok B Ls" by (simp_all add: heap_partial_def)
  have ai: "a \<in> set (Ls ! i)" using L(2) i(2) by simp
  from listed_block[OF lo i(1) ai] obtain n' where n': "(a, n', False) \<in> set B" by blast
  show False using contig_addr_unique[OF heap_blocks_contig[OF hb] b n'] by simp
qed


subsection \<open>Writing the two tags of a block\<close>

lemma put_tags:
  assumes "4 \<le> p" "p + n \<le> 4294967296" "8 \<le> n"
  shows "tagged (PUT (PUT m (W (p - 4)) (tag n al)) (W (p + n - 8)) (tag n al)) (p, n, al)"
    and "same_outside ({p - 4 ..< p} \<union> {p + n - 8 ..< p + n - 4}) m
           (PUT (PUT m (W (p - 4)) (tag n al)) (W (p + n - 8)) (tag n al))"
proof -
  have "GET (PUT (PUT m (W (p - 4)) (tag n al)) (W (p + n - 8)) (tag n al)) (W (p - 4))
      = GET (PUT m (W (p - 4)) (tag n al)) (W (p - 4))"
    using assms by (intro GET_PUT_W) auto
  then show "tagged (PUT (PUT m (W (p - 4)) (tag n al)) (W (p + n - 8)) (tag n al)) (p, n, al)"
    by (simp add: tagged_def GET_PUT_W_same)
  have a: "same_outside {p - 4 ..< p - 4 + 4} m (PUT m (W (p - 4)) (tag n al))"
    using assms by (intro same_outside_PUT) auto
  have b: "same_outside {p + n - 8 ..< p + n - 8 + 4} (PUT m (W (p - 4)) (tag n al))
      (PUT (PUT m (W (p - 4)) (tag n al)) (W (p + n - 8)) (tag n al))"
    using assms by (intro same_outside_PUT) auto
  have "p - 4 + 4 = p" "p + n - 8 + 4 = p + n - 4" using assms by auto
  with same_outside_trans[OF a b]
  show "same_outside ({p - 4 ..< p} \<union> {p + n - 8 ..< p + n - 4}) m
           (PUT (PUT m (W (p - 4)) (tag n al)) (W (p + n - 8)) (tag n al))"
    by simp
qed


subsection \<open>A block between its neighbours\<close>

lemma contig_snoc:
  "contig a (B @ [(p, n, al)]) e \<longleftrightarrow> contig a B p \<and> 16 \<le> n \<and> 8 dvd n \<and> p + n = e"
  by (auto simp add: contig_append)

lemma split_facts:
  assumes hb: "heap_blocks s (B1 @ (a, n, al) # B2)"
  shows "contig (unat (seg_list s) + 96) B1 a" "contig (a + n) B2 (unat (mem_brk s))"
    "16 \<le> n" "8 dvd n" "unat (seg_list s) + 96 \<le> a" "a + n \<le> unat (mem_brk s)"
    "a + n < 4294967296"
proof -
  from heap_blocks_contig[OF hb]
  show c: "contig (unat (seg_list s) + 96) B1 a" "contig (a + n) B2 (unat (mem_brk s))"
    "16 \<le> n" "8 dvd n"
    by (auto simp add: contig_append)
  show "unat (seg_list s) + 96 \<le> a" using c(1) by (rule contig_le)
  show e: "a + n \<le> unat (mem_brk s)" using c(2) by (rule contig_le)
  show "a + n < 4294967296" using e unat32_less[of "mem_brk s"] by simp
qed

lemma prev_tag:
  assumes hb: "heap_blocks s (B1 @ (a, n, al) # B2)"
  shows "B1 = [] \<Longrightarrow> a = unat (seg_list s) + 96 \<and> GET (mem s) (W (a - 8)) = tag 8 True
           \<and> GET (mem s) (W (a - 12)) = tag 8 True"
    and "B1 \<noteq> [] \<Longrightarrow> last B1 = (a0, n0, al0) \<Longrightarrow>
           a0 + n0 = a \<and> GET (mem s) (W (a - 8)) = tag n0 al0 \<and> (a0, n0, al0) \<in> set B1
           \<and> contig (unat (seg_list s) + 96) (butlast B1) a0"
proof -
  note sf = split_facts[OF hb]
  show "a = unat (seg_list s) + 96 \<and> GET (mem s) (W (a - 8)) = tag 8 True
           \<and> GET (mem s) (W (a - 12)) = tag 8 True" if "B1 = []"
  proof -
    have a: "a = unat (seg_list s) + 96" using sf(1) that by simp
    have e: "a - 8 = unat (seg_list s) + 88" "a - 12 = unat (seg_list s) + 84" using a by simp_all
    have "GET (mem s) (W (unat (seg_list s) + 84)) = tag 8 True"
      "GET (mem s) (W (unat (seg_list s) + 88)) = tag 8 True"
      using hb by (simp_all add: heap_blocks_def Let_def)
    then show ?thesis unfolding e using a by blast
  qed
  show "a0 + n0 = a \<and> GET (mem s) (W (a - 8)) = tag n0 al0 \<and> (a0, n0, al0) \<in> set B1
           \<and> contig (unat (seg_list s) + 96) (butlast B1) a0"
    if ne: "B1 \<noteq> []" and l: "last B1 = (a0, n0, al0)"
  proof -
    have B1: "B1 = butlast B1 @ [(a0, n0, al0)]" using ne l by (metis append_butlast_last_id)
    have m: "(a0, n0, al0) \<in> set B1" using ne l by (metis last_in_set)
    then have m': "(a0, n0, al0) \<in> set (B1 @ (a, n, al) # B2)" by simp
    have c: "contig (unat (seg_list s) + 96) (butlast B1 @ [(a0, n0, al0)]) a"
      using sf(1) B1 by simp
    then have e: "a0 + n0 = a" "contig (unat (seg_list s) + 96) (butlast B1) a0"
      by (simp_all add: contig_snoc)
    from heap_blocks_mem(7)[OF hb m'] e m show ?thesis by simp
  qed
qed

lemma next_tag:
  assumes hb: "heap_blocks s (B1 @ (a, n, al) # B2)"
  shows "B2 = [] \<Longrightarrow> a + n = unat (mem_brk s) \<and> GET (mem s) (W (a + n - 4)) = tag 0 True"
    and "B2 = (a2, n2, al2) # B3 \<Longrightarrow>
           a2 = a + n \<and> GET (mem s) (W (a + n - 4)) = tag n2 al2 \<and> 16 \<le> n2 \<and> 8 dvd n2
           \<and> a + n + n2 < 4294967296 \<and> contig (a + n + n2) B3 (unat (mem_brk s))"
proof -
  note sf = split_facts[OF hb]
  show "a + n = unat (mem_brk s) \<and> GET (mem s) (W (a + n - 4)) = tag 0 True" if "B2 = []"
  proof -
    have "a + n = unat (mem_brk s)" using sf(2) that by simp
    then show ?thesis using hb by (simp add: heap_blocks_def Let_def)
  qed
  show "a2 = a + n \<and> GET (mem s) (W (a + n - 4)) = tag n2 al2 \<and> 16 \<le> n2 \<and> 8 dvd n2
           \<and> a + n + n2 < 4294967296 \<and> contig (a + n + n2) B3 (unat (mem_brk s))"
    if B2: "B2 = (a2, n2, al2) # B3"
  proof -
    have c: "a2 = a + n" "16 \<le> n2" "8 dvd n2" "contig (a + n + n2) B3 (unat (mem_brk s))"
      using sf(2) B2 by simp_all
    have m': "(a2, n2, al2) \<in> set (B1 @ (a, n, al) # B2)" using B2 by simp
    from heap_blocks_mem(5,6)[OF hb m'] c show ?thesis by simp
  qed
qed



lemma all_listed_mid:
  assumes al: "all_listed (B1 @ old @ B2) Ls" and d: "distinct (map fst (B1 @ old @ B2))"
    and nw: "\<forall>b \<in> set new. \<not> snd (snd b) \<longrightarrow> fst b \<in> set (concat Ls')"
    and keep: "set (concat Ls) - fst ` set old \<subseteq> set (concat Ls')"
  shows "all_listed (B1 @ new @ B2) Ls'"
proof -
  have "fst b \<in> set (concat Ls')" if b: "b \<in> set B1 \<union> set B2" "\<not> snd (snd b)" for b
  proof -
    have "fst b \<in> set (concat Ls)" using al b by (auto simp add: all_listed_def)
    moreover have "fst b \<notin> fst ` set old" using d b(1) by auto
    ultimately show ?thesis using keep by blast
  qed
  then show ?thesis using nw by (auto simp add: all_listed_def)
qed


lemma put_mem: "mem (put s p v) = PUT (mem s) p v" "put s p v = s\<lparr>mem := PUT (mem s) p v\<rparr>"
  by (simp_all add: put_def)




subsection \<open>Growing an allocated block over its free successor\<close>

lemma links_avoid_block:
  assumes hp: "heap_partial s B Ls" and b: "(a, n, True) \<in> set B"
  shows "{a - 4 ..< a + n} \<inter> link_bytes s Ls = {}"
proof -
  from hp have hb: "heap_blocks s B" and lo: "listed_ok B Ls" by (simp_all add: heap_partial_def)
  note hm = heap_blocks_mem[OF hb b]
  have "x \<notin> {c ..< c + 8}" if x: "x \<in> {a - 4 ..< a + n}" and c: "c \<in> set (concat Ls)" for x c
  proof -
    from c obtain L where L: "L \<in> set Ls" "c \<in> set L" by auto
    then obtain i where i: "i < length Ls" "L = Ls ! i" by (auto simp add: in_set_conv_nth)
    have ci: "c \<in> set (Ls ! i)" using L(2) i(2) by simp
    from listed_block[OF lo i(1) ci] obtain n' where n': "(c, n', False) \<in> set B" by blast
    from contig_disjoint[OF heap_blocks_contig[OF hb] b n'] heap_blocks_mem(3)[OF hb n']
    show ?thesis using x by auto
  qed
  moreover have "x \<notin> {unat (seg_list s) ..< unat (seg_list s) + 80}" if "x \<in> {a - 4 ..< a + n}" for x
    using that hm(1) by auto
  ultimately show ?thesis unfolding link_bytes_def by blast
qed

lemma realloc_absorb:
  assumes inv: "heap_inv s (B1 @ (a, n, True) # (a2, n2, False) # B2) Ls"
    and sz: "sz \<noteq> 0" and p1: "W n < adjusted_size sz" and fit: "adjusted_size sz \<le> W (n + n2)"
  shows "\<exists>s'. mm_realloc s (W a) sz = Some (s', W a)
    \<and> heap_inv s' (B1 @ (a, n + n2, True) # B2) (ls_remove Ls (cls n2) (a + n))
    \<and> (\<forall>x. a \<le> x \<and> x < a + n - 8 \<longrightarrow> mem s' (W x) = mem s (W x))"
proof -
  let ?B = "B1 @ (a, n, True) # (a2, n2, False) # B2"
  let ?Ls1 = "ls_remove Ls (cls n2) (a + n)"
  from inv have hp: "heap_partial s ?B Ls" and al: "all_listed ?B Ls" and naf: "no_adjacent_free ?B"
    by (simp_all add: heap_inv_def)
  from hp have hb: "heap_blocks s ?B" and lo: "listed_ok ?B Ls" and fl: "free_lists s Ls"
    by (simp_all add: heap_partial_def)
  note sf = split_facts[OF hb]
  from next_tag(2)[OF hb refl] have nt: "a2 = a + n" "16 \<le> n2" "8 dvd n2" "a + n + n2 < 4294967296"
    by simp_all
  have m: "(a, n, True) \<in> set ?B" and m2: "(a + n, n2, False) \<in> set ?B" using nt(1) by simp_all
  have a4: "4 \<le> a" "0 < a" using sf(5) by simp_all
  have a0: "W a \<noteq> NULL" using W_eq_0_iff[of a] sf(7) a4 by simp
  have os: "GET_SIZE (mem s) (HDRP (W a)) = W n" by (rule heap_blocks_macros(1)[OF hb m])
  have nb: "NEXT_BLKP (mem s) (W a) = W (a + n)" by (rule heap_blocks_macros(3)[OF hb m])
  have na: "GET_ALLOC (mem s) (HDRP (W (a + n))) = 0"
    using heap_blocks_macros(2)[OF hb m2] by simp
  have ns: "GET_SIZE (mem s) (HDRP (W (a + n))) = W n2" by (rule heap_blocks_macros(1)[OF hb m2])
  have ain: "a + n \<in> set (Ls ! cls n2)" by (rule in_class[OF hp al m2])
  define s1 where "s1 = delete_node s (W (a + n))"
  note dn = delete_node_heap[OF hp cls_less ain, folded s1_def]
  have sl1: "seg_list s1 = seg_list s" "mem_brk s1 = mem_brk s"
    by (subst dn(3), simp)+
  have len: "length Ls = LIST_LIMIT" using fl by (rule free_lists_length)
  have dL: "distinct (concat Ls)" using lo by (simp add: listed_ok_def)
  have cl: "cls n2 < length Ls" using len cls_less[of n2] by simp
  have rm: "set (concat ?Ls1) = set (concat Ls) - {a + n}"
    by (rule ls_remove_concat(1)[OF dL cl ain])
  define m3 where "m3 = PUT (PUT (mem s1) (W (a - 4)) (tag (n + n2) True)) (W (a + (n + n2) - 8))
                          (tag (n + n2) True)"
  have t3: "tagged m3 (a, n + n2, True)"
    and so3: "same_outside ({a - 4 ..< a} \<union> {a + (n + n2) - 8 ..< a + (n + n2) - 4}) (mem s1) m3"
    unfolding m3_def using a4 nt sf by (intro put_tags; simp)+
  have g2: "GET (PUT (mem s1) (W (a - 4)) (tag (n + n2) True)) (W (a - 4)) = tag (n + n2) True"
    by (rule GET_PUT_W_same)
  have f2: "FTRP (PUT (mem s1) (W (a - 4)) (tag (n + n2) True)) (W a) = W (a + (n + n2) - 8)"
    using g2 a4(1) by (rule FTRP_tag) (use sf nt in \<open>simp_all add: dvd_add\<close>)
  have hdr: "HDRP (W a) = W (a - 4)" using a4 by (intro HDRP_W)
  have os': "GET_SIZE (mem s) (W (a - 4)) = W n" using os hdr by simp
  have re: "mm_realloc s (W a) sz = Some (s1\<lparr>mem := m3\<rparr>, W a)"
    using a0 sz p1 fit
    by (simp add: mm_realloc_def Let_def hdr os' nb na ns W_add s1_def[symmetric] put_mem
        tag_PACK[symmetric] f2 m3_def[symmetric] not_le[symmetric])
  let ?old = "[(a, n, True), (a + n, n2, False)]" and ?new = "[(a, n + n2, True)]"
  have hp1: "heap_partial s1 (B1 @ ?old @ B2) ?Ls1" using dn(1) nt(1) by simp
  have c1: "contig (unat (seg_list s1) + 96) B1 a" using sf(1) sl1 by simp
  have co: "contig a ?old (a + (n + n2))" using sf nt by (simp add: add.assoc)
  have cn: "contig a ?new (a + (n + n2))" using sf nt by (simp add: dvd_add)
  have so: "same_outside {a - 4 ..< a + (n + n2) - 4} (mem s1) m3"
    using so3 by (rule same_outside_mono) (use a4 sf(3) in auto)
  have tg: "\<forall>b \<in> set ?new. tagged m3 b" using t3 by simp
  have "a \<notin> set (concat ?Ls1)" using allocated_unlisted[OF dn(1) m] .
  moreover have "a + n \<notin> set (concat ?Ls1)" unfolding rm by simp
  ultimately have unl: "\<forall>b \<in> set ?old. fst b \<notin> set (concat ?Ls1)" by simp
  have hp3: "heap_partial (s1\<lparr>mem := m3\<rparr>) (B1 @ ?new @ B2) ?Ls1"
    using hp1 c1 co cn so tg unl by (rule retag_mid)
  have dB: "distinct (map fst (B1 @ ?old @ B2))"
    using contig_distinct[OF heap_blocks_contig[OF hb]] nt(1) by simp
  have al': "all_listed (B1 @ ?old @ B2) Ls" using al nt(1) by simp
  have nwl: "\<forall>b \<in> set ?new. \<not> snd (snd b) \<longrightarrow> fst b \<in> set (concat ?Ls1)" by simp
  have keep: "set (concat Ls) - fst ` set ?old \<subseteq> set (concat ?Ls1)" unfolding rm by auto
  have al3: "all_listed (B1 @ ?new @ B2) ?Ls1"
    using al' dB nwl keep by (rule all_listed_mid)
  have naf3: "no_adjacent_free (B1 @ ?new @ B2)"
    using naf by (simp add: naf_append[of B1] naf_snoc naf_cons)
  have inv3: "heap_inv (s1\<lparr>mem := m3\<rparr>) (B1 @ (a, n + n2, True) # B2) ?Ls1"
    using hp3 al3 naf3 by (simp add: heap_inv_def)
  have pay: "m3 (W x) = mem s (W x)" if x: "a \<le> x" "x < a + n - 8" for x
  proof -
    have x32: "x < 4294967296" using x sf(7) by simp
    have "x \<in> {a - 4 ..< a + n}" using x by auto
    then have "x \<notin> link_bytes s Ls" using links_avoid_block[OF hp m] by blast
    then have "mem s1 (W x) = mem s (W x)" using dn(2) x32 by (simp add: same_outside_def)
    moreover have "x \<notin> {a - 4 ..< a} \<union> {a + (n + n2) - 8 ..< a + (n + n2) - 4}" using x by auto
    then have "m3 (W x) = mem s1 (W x)" using so3 x32 by (simp add: same_outside_def)
    ultimately show ?thesis by simp
  qed
  show ?thesis using re inv3 pay by simp
qed



subsection \<open>What coalescing reads\<close>

lemma in_listed_class:
  assumes hp: "heap_partial s B Ls" and b: "(a, n, False) \<in> set B" and l: "a \<in> set (concat Ls)"
  shows "a \<in> set (Ls ! cls n)"
proof -
  from hp have hb: "heap_blocks s B" and lo: "listed_ok B Ls" by (simp_all add: heap_partial_def)
  from l obtain L where L: "L \<in> set Ls" "a \<in> set L" by auto
  then obtain i where i: "i < length Ls" "L = Ls ! i" by (auto simp add: in_set_conv_nth)
  have ai: "a \<in> set (Ls ! i)" using L(2) i(2) by simp
  from listed_block[OF lo i(1) ai] obtain n' where n': "(a, n', False) \<in> set B" "cls n' = i"
    by blast
  have "n = n'" using contig_addr_unique[OF heap_blocks_contig[OF hb] b n'(1)] by simp
  then show ?thesis using ai n'(2) by simp
qed

lemma GET_SIZE_raw: "GET m q = tag n al \<Longrightarrow> 8 dvd n \<Longrightarrow> n < 4294967296 \<Longrightarrow> GET_SIZE m q = W n"
  by (simp only: GET_SIZE_def tag_size)

lemma GET_ALLOC_raw:
  "GET m q = tag n al \<Longrightarrow> 8 dvd n \<Longrightarrow> n < 4294967296 \<Longrightarrow>
   GET_ALLOC m q = (if al then 1 else 0)"
  by (simp only: GET_ALLOC_def tag_alloc)

lemma coalesce_reads:
  assumes hb: "heap_blocks s (B1 @ (a, n, al) # B2)"
  shows "GET_ALLOC (mem s) (FTRP (mem s) (PREV_BLKP (mem s) (W a)))
           = (if B1 \<noteq> [] \<and> \<not> snd (snd (last B1)) then 0 else 1)"
    and "GET_ALLOC (mem s) (HDRP (NEXT_BLKP (mem s) (W a)))
           = (if B2 \<noteq> [] \<and> \<not> snd (snd (hd B2)) then 0 else 1)"
    and "GET_SIZE (mem s) (HDRP (W a)) = W n"
    and "NEXT_BLKP (mem s) (W a) = W (a + n)"
    and "B1 \<noteq> [] \<Longrightarrow> PREV_BLKP (mem s) (W a) = W (fst (last B1))"
proof -
  let ?B = "B1 @ (a, n, al) # B2"
  note sf = split_facts[OF hb]
  have m: "(a, n, al) \<in> set ?B" by simp
  show "GET_SIZE (mem s) (HDRP (W a)) = W n" by (rule heap_blocks_macros(1)[OF hb m])
  show nb: "NEXT_BLKP (mem s) (W a) = W (a + n)" by (rule heap_blocks_macros(3)[OF hb m])
  have hn: "HDRP (W (a + n)) = W (a + n - 4)" using sf(3) by (intro HDRP_W) simp
  show "GET_ALLOC (mem s) (HDRP (NEXT_BLKP (mem s) (W a)))
           = (if B2 \<noteq> [] \<and> \<not> snd (snd (hd B2)) then 0 else 1)"
  proof (cases B2)
    case Nil
    from next_tag(1)[OF hb Nil] have "GET (mem s) (W (a + n - 4)) = tag 0 True" by (rule conjunct2)
    then have "GET_ALLOC (mem s) (W (a + n - 4)) = 1" using GET_ALLOC_raw[of "mem s" _ 0 True] by simp
    then show ?thesis using Nil nb hn by simp
  next
    case (Cons b2 B3)
    obtain a2 n2 al2 where b2: "b2 = (a2, n2, al2)" by (cases b2)
    from next_tag(2)[OF hb Cons[unfolded b2]]
    have g: "GET (mem s) (W (a + n - 4)) = tag n2 al2" "8 dvd n2" "n2 < 4294967296" by simp_all
    from GET_ALLOC_raw[OF g] show ?thesis using Cons b2 nb hn by simp
  qed
  have pb: "PREV_BLKP (mem s) (W a) = W (fst (last B1))
      \<and> GET_ALLOC (mem s) (FTRP (mem s) (PREV_BLKP (mem s) (W a))) = (if snd (snd (last B1)) then 1 else 0)"
    if ne: "B1 \<noteq> []"
  proof -
    obtain a0 n0 al0 where l: "last B1 = (a0, n0, al0)" by (cases "last B1")
    from prev_tag(2)[OF hb ne l]
    have p: "a0 + n0 = a" "GET (mem s) (W (a - 8)) = tag n0 al0" "(a0, n0, al0) \<in> set B1" by simp_all
    have m0: "(a0, n0, al0) \<in> set ?B" using p(3) by simp
    note h0 = heap_blocks_mem[OF hb m0]
    have "PREV_BLKP (mem s) (W a) = W (a - n0)"
      using p(2) by (rule PREV_BLKP_tag) (use p(1) h0 in simp_all)
    then have pv: "PREV_BLKP (mem s) (W a) = W a0" using p(1) by auto
    have "FTRP (mem s) (W a0) = W (a0 + n0 - 8)" by (rule heap_blocks_macros(4)[OF hb m0])
    moreover have "a0 + n0 - 8 = a - 8" using p(1) by simp
    ultimately have "FTRP (mem s) (PREV_BLKP (mem s) (W a)) = W (a - 8)" using pv by simp
    moreover have "GET_ALLOC (mem s) (W (a - 8)) = (if al0 then 1 else 0)"
      using p(2) h0(4) by (rule GET_ALLOC_raw) (use h0 in simp)
    ultimately show ?thesis using pv l by simp
  qed
  show "B1 \<noteq> [] \<Longrightarrow> PREV_BLKP (mem s) (W a) = W (fst (last B1))" using pb by blast
  show "GET_ALLOC (mem s) (FTRP (mem s) (PREV_BLKP (mem s) (W a)))
           = (if B1 \<noteq> [] \<and> \<not> snd (snd (last B1)) then 0 else 1)"
  proof (cases "B1 = []")
    case True
    note pt = prev_tag(1)[OF hb True]
    have p: "a = unat (seg_list s) + 96" "GET (mem s) (W (a - 8)) = tag 8 True"
      "GET (mem s) (W (a - 12)) = tag 8 True"
      using pt by blast+
    have "PREV_BLKP (mem s) (W a) = W (a - 8)"
      using p(2) by (rule PREV_BLKP_tag) (use p(1) in simp_all)
    moreover have "FTRP (mem s) (W (a - 8)) = W (a - 8 + 8 - 8)"
      by (rule FTRP_tag[where al = True]) (use p in simp_all)
    moreover have "a - 8 + 8 - 8 = a - 8" using p(1) by simp
    moreover have "GET_ALLOC (mem s) (W (a - 8)) = 1"
      using GET_ALLOC_raw[OF p(2)] by simp
    ultimately show ?thesis using True by simp
  next
    case False
    from pb[OF False]
    have "GET_ALLOC (mem s) (FTRP (mem s) (PREV_BLKP (mem s) (W a)))
        = (if snd (snd (last B1)) then 1 else 0)" by (rule conjunct2)
    then show ?thesis using False by auto
  qed
qed

subsection \<open>Writing a merged free block and listing it\<close>

lemma put_tags_rev:
  assumes "4 \<le> p" "p + n \<le> 4294967296" "8 \<le> n"
  shows "tagged (PUT (PUT m (W (p + n - 8)) (tag n al)) (W (p - 4)) (tag n al)) (p, n, al)"
    and "same_outside ({p - 4 ..< p} \<union> {p + n - 8 ..< p + n - 4}) m
           (PUT (PUT m (W (p + n - 8)) (tag n al)) (W (p - 4)) (tag n al))"
proof -
  have "GET (PUT (PUT m (W (p + n - 8)) (tag n al)) (W (p - 4)) (tag n al)) (W (p + n - 8))
      = GET (PUT m (W (p + n - 8)) (tag n al)) (W (p + n - 8))"
    using assms by (intro GET_PUT_W) auto
  then show "tagged (PUT (PUT m (W (p + n - 8)) (tag n al)) (W (p - 4)) (tag n al)) (p, n, al)"
    by (simp add: tagged_def GET_PUT_W_same)
  have a: "same_outside {p - 4 ..< p - 4 + 4} (PUT m (W (p + n - 8)) (tag n al))
       (PUT (PUT m (W (p + n - 8)) (tag n al)) (W (p - 4)) (tag n al))"
    using assms by (intro same_outside_PUT) auto
  have b: "same_outside {p + n - 8 ..< p + n - 8 + 4} m (PUT m (W (p + n - 8)) (tag n al))"
    using assms by (intro same_outside_PUT) auto
  have "p - 4 + 4 = p" "p + n - 8 + 4 = p + n - 4" using assms by auto
  with same_outside_trans[OF b a]
  show "same_outside ({p - 4 ..< p} \<union> {p + n - 8 ..< p + n - 4}) m
           (PUT (PUT m (W (p + n - 8)) (tag n al)) (W (p - 4)) (tag n al))"
    by (simp add: Un_commute)
qed

lemma merge_finish:
  assumes hp: "heap_partial s (B1 @ old @ B2) Ls"
    and c1: "contig (unat (seg_list s) + 96) B1 x" and co: "contig x old (x + t)"
    and t: "16 \<le> t" "8 dvd t"
    and so: "same_outside {x - 4 ..< x + t - 4} (mem s) m'"
    and tg: "tagged m' (x, t, False)"
    and unl: "\<forall>b \<in> set old. fst b \<notin> set (concat Ls)" and xu: "x \<notin> set (concat Ls)"
    and al: "all_listed (B1 @ B2) Ls"
    and naf: "no_adjacent_free (B1 @ (x, t, False) # B2)"
  shows "heap_inv (insert_node (s\<lparr>mem := m'\<rparr>) (W x) (W t)) (B1 @ (x, t, False) # B2)
           (ls_insert Ls (cls t) x)"
proof -
  let ?new = "[(x, t, False)]"
  have cn: "contig x ?new (x + t)" using t by simp
  have tg': "\<forall>b \<in> set ?new. tagged m' b" using tg by simp
  have hp1: "heap_partial (s\<lparr>mem := m'\<rparr>) (B1 @ ?new @ B2) Ls"
    using hp c1 co cn so tg' unl by (rule retag_mid)
  have mb: "(x, t, False) \<in> set (B1 @ ?new @ B2)" by simp
  have hp2: "heap_partial (insert_node (s\<lparr>mem := m'\<rparr>) (W x) (W t)) (B1 @ ?new @ B2)
               (ls_insert Ls (cls t) x)"
    using hp1 mb xu by (rule insert_node_heap(1))
  have len: "cls t < length Ls"
    using free_lists_length[of s Ls] hp cls_less[of t] by (simp add: heap_partial_def)
  have ins: "set (concat (ls_insert Ls (cls t) x)) = insert x (set (concat Ls))"
    using len by (rule ls_insert_concat(1))
  have al2: "all_listed (B1 @ ?new @ B2) (ls_insert Ls (cls t) x)"
    using al unfolding all_listed_def ins by auto
  have naf2: "no_adjacent_free (B1 @ ?new @ B2)"
    using naf by simp
  show ?thesis using hp2 al2 naf2 by (simp add: heap_inv_def)
qed



subsection \<open>Coalescing: both neighbours allocated, or only the successor free\<close>

lemma state_mem_id: "s\<lparr>mem := mem s\<rparr> = (s::heap)"
  by simp

lemma all_listed_drop:
  assumes al: "all_listed B Ls" and sub: "set B' \<subseteq> set B"
    and rm: "set (concat Ls') = set (concat Ls) - R" and d: "fst ` set B' \<inter> R = {}"
  shows "all_listed B' Ls'"
  unfolding all_listed_def rm
proof (intro ballI impI)
  fix b assume b: "b \<in> set B'" "\<not> snd (snd b)"
  then have "fst b \<in> set (concat Ls)" using al sub unfolding all_listed_def by blast
  moreover have "fst b \<notin> R" using d b(1) by blast
  ultimately show "fst b \<in> set (concat Ls) - R" by blast
qed

lemma coalesce_case1:
  assumes hp: "heap_partial s (B1 @ (a, n, False) # B2) Ls" and unl: "a \<notin> set (concat Ls)"
    and al: "all_listed (B1 @ B2) Ls" and naf: "no_adjacent_free (B1 @ (a, n, True) # B2)"
    and pa: "B1 = [] \<or> snd (snd (last B1))" and nx: "B2 = [] \<or> snd (snd (hd B2))"
  shows "snd (coalesce s (W a)) = W a"
    and "heap_inv (fst (coalesce s (W a))) (B1 @ (a, n, False) # B2) (ls_insert Ls (cls n) a)"
proof -
  let ?B = "B1 @ (a, n, False) # B2"
  from hp have hb: "heap_blocks s ?B" by (simp add: heap_partial_def)
  note sf = split_facts[OF hb]
  note r = coalesce_reads[OF hb]
  have pa1: "GET_ALLOC (mem s) (FTRP (mem s) (PREV_BLKP (mem s) (W a))) = 1"
    using r(1) pa by auto
  have na1: "GET_ALLOC (mem s) (HDRP (NEXT_BLKP (mem s) (W a))) = 1"
    using r(2) nx by auto
  have ce: "coalesce s (W a) = (insert_node s (W a) (W n), W a)"
    unfolding coalesce_def Let_def pa1 na1 r(3) by simp
  have hp': "heap_partial s (B1 @ [(a, n, False)] @ B2) Ls" using hp by simp
  have co: "contig a [(a, n, False)] (a + n)" using sf by simp
  have so: "same_outside {a - 4 ..< a + n - 4} (mem s) (mem s)" by (rule same_outside_refl)
  have tg: "tagged (mem s) (a, n, False)"
    using hb by (simp add: heap_blocks_def Let_def)
  have u: "\<forall>b \<in> set [(a, n, False)]. fst b \<notin> set (concat Ls)" using unl by simp
  have naf': "no_adjacent_free (B1 @ (a, n, False) # B2)"
    using naf pa nx by (auto simp add: naf_append[of B1] naf_snoc naf_cons)
  from merge_finish[OF hp' sf(1) co sf(3,4) so tg u unl al naf']
  have "heap_inv (insert_node s (W a) (W n)) ?B (ls_insert Ls (cls n) a)"
    by (simp only: state_mem_id)
  then show "heap_inv (fst (coalesce s (W a))) ?B (ls_insert Ls (cls n) a)"
    unfolding ce by simp
  show "snd (coalesce s (W a)) = W a" unfolding ce by simp
qed

lemma coalesce_case2:
  assumes hp: "heap_partial s (B1 @ (a, n, False) # (a2, n2, False) # B3) Ls"
    and unl: "a \<notin> set (concat Ls)"
    and al: "all_listed (B1 @ (a2, n2, False) # B3) Ls"
    and naf: "no_adjacent_free (B1 @ (a, n, True) # (a2, n2, False) # B3)"
    and pa: "B1 = [] \<or> snd (snd (last B1))"
  shows "snd (coalesce s (W a)) = W a"
    and "heap_inv (fst (coalesce s (W a))) (B1 @ (a, n + n2, False) # B3)
           (ls_insert (ls_remove Ls (cls n2) (a + n)) (cls (n + n2)) a)"
proof -
  let ?B = "B1 @ (a, n, False) # (a2, n2, False) # B3"
  let ?Ls1 = "ls_remove Ls (cls n2) (a + n)"
  from hp have hb: "heap_blocks s ?B" and lo: "listed_ok ?B Ls" and fl: "free_lists s Ls"
    by (simp_all add: heap_partial_def)
  note sf = split_facts[OF hb]
  from next_tag(2)[OF hb refl] have nt: "a2 = a + n" "16 \<le> n2" "8 dvd n2" "a + n + n2 < 4294967296"
    by simp_all
  have m: "(a, n, False) \<in> set ?B" and m2: "(a + n, n2, False) \<in> set ?B" using nt(1) by simp_all
  have a4: "4 \<le> a" using sf(5) by simp
  note r = coalesce_reads[OF hb]
  have pa1: "GET_ALLOC (mem s) (FTRP (mem s) (PREV_BLKP (mem s) (W a))) = 1"
    using r(1) pa by auto
  have na0: "GET_ALLOC (mem s) (HDRP (W (a + n))) = 0"
    using heap_blocks_macros(2)[OF hb m2] by simp
  have l2: "a + n \<in> set (concat Ls)" using al nt(1) by (simp add: all_listed_def)
  have ain: "a + n \<in> set (Ls ! cls n2)" by (rule in_listed_class[OF hp m2 l2])
  define D where "D = delete_node s (W (a + n))"
  note dn = delete_node_heap[OF hp cls_less ain, folded D_def]
  have sl: "seg_list D = seg_list s" by (subst dn(3), simp)
  have hbD: "heap_blocks D ?B" using dn(1) by (simp add: heap_partial_def)
  note rD = coalesce_reads[OF hbD]
  have sD: "GET_SIZE (mem D) (HDRP (W (a + n))) = W n2" by (rule heap_blocks_macros(1)[OF hbD m2])
  have len: "length Ls = LIST_LIMIT" using fl by (rule free_lists_length)
  have dL: "distinct (concat Ls)" using lo by (simp add: listed_ok_def)
  have cl: "cls n2 < length Ls" using len cls_less[of n2] by simp
  have rm: "set (concat ?Ls1) = set (concat Ls) - {a + n}"
    by (rule ls_remove_concat(1)[OF dL cl ain])
  define m' where "m' = PUT (PUT (mem D) (W (a - 4)) (tag (n + n2) False)) (W (a + (n + n2) - 8))
                          (tag (n + n2) False)"
  have t3: "tagged m' (a, n + n2, False)"
    and so3: "same_outside ({a - 4 ..< a} \<union> {a + (n + n2) - 8 ..< a + (n + n2) - 4}) (mem D) m'"
    unfolding m'_def using a4 nt sf by (intro put_tags; simp)+
  have g2: "GET (PUT (mem D) (W (a - 4)) (tag (n + n2) False)) (W (a - 4)) = tag (n + n2) False"
    by (rule GET_PUT_W_same)
  have f2: "FTRP (PUT (mem D) (W (a - 4)) (tag (n + n2) False)) (W a) = W (a + (n + n2) - 8)"
    using g2 a4 by (rule FTRP_tag) (use sf nt in \<open>simp_all add: dvd_add\<close>)
  have hdr: "HDRP (W a) = W (a - 4)" using a4 by (intro HDRP_W)
  have ce: "coalesce s (W a) = (insert_node (D\<lparr>mem := m'\<rparr>) (W a) (W (n + n2)), W a)"
    unfolding coalesce_def Let_def pa1 na0 r(3,4) D_def[symmetric] rD(4) sD
    by (simp add: hdr W_add put_mem tag_PACK[symmetric] f2 m'_def[symmetric])
  let ?old = "[(a, n, False), (a + n, n2, False)]"
  have hpD: "heap_partial D (B1 @ ?old @ B3) ?Ls1" using dn(1) nt(1) by simp
  have c1: "contig (unat (seg_list D) + 96) B1 a" using sf(1) sl by simp
  have co: "contig a ?old (a + (n + n2))" using sf nt by (simp add: add.assoc)
  have t: "16 \<le> n + n2" "8 dvd (n + n2)" using sf nt by (simp_all add: dvd_add)
  have so: "same_outside {a - 4 ..< a + (n + n2) - 4} (mem D) m'"
    using so3 by (rule same_outside_mono) (use a4 sf(3) in auto)
  have xu: "a \<notin> set (concat ?Ls1)" unfolding rm using unl by simp
  have u: "\<forall>b \<in> set ?old. fst b \<notin> set (concat ?Ls1)" using xu unfolding rm by simp
  have dB: "distinct (map fst ?B)" by (rule contig_distinct[OF heap_blocks_contig[OF hb]])
  have d: "fst ` set (B1 @ B3) \<inter> {a + n} = {}" using dB nt(1) by auto
  have al': "all_listed (B1 @ B3) ?Ls1"
    using al _ rm d by (rule all_listed_drop) auto
  have naf': "no_adjacent_free (B1 @ (a, n + n2, False) # B3)"
    using naf pa by (auto simp add: naf_append[of B1] naf_snoc naf_cons)
  from merge_finish[OF hpD c1 co t so t3 u xu al' naf']
  show "heap_inv (fst (coalesce s (W a))) (B1 @ (a, n + n2, False) # B3)
           (ls_insert ?Ls1 (cls (n + n2)) a)"
    unfolding ce by simp
  show "snd (coalesce s (W a)) = W a" unfolding ce by simp
qed



subsection \<open>Coalescing: the predecessor free\<close>

lemma coalesce_case3:
  assumes hp: "heap_partial s ((B0 @ [(a0, n0, False)]) @ (a, n, False) # B2) Ls"
    and unl: "a \<notin> set (concat Ls)"
    and al: "all_listed ((B0 @ [(a0, n0, False)]) @ B2) Ls"
    and naf: "no_adjacent_free ((B0 @ [(a0, n0, False)]) @ (a, n, True) # B2)"
    and nx: "B2 = [] \<or> snd (snd (hd B2))"
  shows "snd (coalesce s (W a)) = W a0"
    and "heap_inv (fst (coalesce s (W a))) (B0 @ (a0, n0 + n, False) # B2)
           (ls_insert (ls_remove Ls (cls n0) a0) (cls (n0 + n)) a0)"
proof -
  let ?B = "(B0 @ [(a0, n0, False)]) @ (a, n, False) # B2"
  let ?Ls1 = "ls_remove Ls (cls n0) a0"
  from hp have hb: "heap_blocks s ?B" and lo: "listed_ok ?B Ls" and fl: "free_lists s Ls"
    by (simp_all add: heap_partial_def)
  note sf = split_facts[OF hb]
  from sf(1) have p0: "contig (unat (seg_list s) + 96) B0 a0" "16 \<le> n0" "8 dvd n0" "a0 + n0 = a"
    by (simp_all add: contig_snoc)
  have m: "(a, n, False) \<in> set ?B" and m0: "(a0, n0, False) \<in> set ?B" by simp_all
  have a4: "4 \<le> a0" "20 \<le> a" using contig_le[OF p0(1)] p0(2,4) by simp_all
  note r = coalesce_reads[OF hb]
  have pa0: "GET_ALLOC (mem s) (FTRP (mem s) (W a0)) = 0"
    using r(1) r(5) by simp
  have na1: "GET_ALLOC (mem s) (HDRP (W (a + n))) = 1"
    using r(2) r(4) nx by auto
  have pv: "PREV_BLKP (mem s) (W a) = W a0" using r(5) by simp
  have l0: "a0 \<in> set (concat Ls)" using al by (simp add: all_listed_def)
  have ain: "a0 \<in> set (Ls ! cls n0)" by (rule in_listed_class[OF hp m0 l0])
  define D where "D = delete_node s (W a0)"
  note dn = delete_node_heap[OF hp cls_less ain, folded D_def]
  have sl: "seg_list D = seg_list s" by (subst dn(3), simp)
  have hbD: "heap_blocks D ?B" using dn(1) by (simp add: heap_partial_def)
  note rD = coalesce_reads[OF hbD]
  have pvD: "PREV_BLKP (mem D) (W a) = W a0" using rD(5) by simp
  have sD: "GET_SIZE (mem D) (HDRP (W a0)) = W n0" by (rule heap_blocks_macros(1)[OF hbD m0])
  have fD: "FTRP (mem D) (W a) = W (a + n - 8)" by (rule heap_blocks_macros(4)[OF hbD m])
  from prev_tag(2)[OF hbD _ , of a0 n0 False]
  have gD: "GET (mem D) (W (a - 8)) = tag n0 False" by simp
  have len: "length Ls = LIST_LIMIT" using fl by (rule free_lists_length)
  have dL: "distinct (concat Ls)" using lo by (simp add: listed_ok_def)
  have cl: "cls n0 < length Ls" using len cls_less[of n0] by simp
  have rm: "set (concat ?Ls1) = set (concat Ls) - {a0}"
    by (rule ls_remove_concat(1)[OF dL cl ain])
  have e: "a0 + (n0 + n) - 8 = a + n - 8" "a - n0 = a0" using p0(4) by simp_all
  have n32: "n0 < 4294967296" "a0 + (n0 + n) \<le> 4294967296" using sf(7) p0(4) by simp_all
  define m' where "m' = PUT (PUT (mem D) (W (a + n - 8)) (tag (n0 + n) False)) (W (a0 - 4))
                          (tag (n0 + n) False)"
  have t3: "tagged m' (a0, n0 + n, False)"
    and so3: "same_outside ({a0 - 4 ..< a0} \<union> {a + n - 8 ..< a0 + (n0 + n) - 4}) (mem D) m'"
    using put_tags_rev[of a0 "n0 + n" "mem D" False] a4 n32 p0(2) unfolding m'_def e by simp_all
  have "GET (PUT (mem D) (W (a + n - 8)) (tag (n0 + n) False)) (W (a - 8)) = GET (mem D) (W (a - 8))"
    by (rule GET_PUT_W) (use sf(3,7) a4 in auto)
  then have g1: "GET (PUT (mem D) (W (a + n - 8)) (tag (n0 + n) False)) (W (a - 8)) = tag n0 False"
    using gD by simp
  have pv1: "PREV_BLKP (PUT (mem D) (W (a + n - 8)) (tag (n0 + n) False)) (W a) = W a0"
    using PREV_BLKP_tag[OF g1] p0 n32(1) unfolding e by simp
  have "GET m' (W (a - 8)) = GET (mem D) (W (a - 8))"
    using so3 by (rule GET_same_outside) (use p0 sf(3,7) a4 in auto)
  then have g2: "GET m' (W (a - 8)) = tag n0 False" using gD by simp
  have pv2: "PREV_BLKP m' (W a) = W a0"
    using PREV_BLKP_tag[OF g2] p0 n32(1) unfolding e by simp
  have hdr: "HDRP (W a) = W (a - 4)" "HDRP (W a0) = W (a0 - 4)" using a4 by (simp_all add: HDRP_W)
  have sz1: "W n + W n0 = W (n0 + n)" by (simp add: W_add add.commute)
  have sD': "GET_SIZE (mem D) (W (a0 - 4)) = W n0" using sD hdr(2) by simp
  have ce: "coalesce s (W a) = (insert_node (D\<lparr>mem := m'\<rparr>) (W a0) (W (n0 + n)), W a0)"
    unfolding coalesce_def Let_def
    by (simp add: pv pa0 r(3,4) na1 D_def[symmetric] pvD hdr(2) sD' fD sz1 put_mem
        tag_PACK[symmetric] pv1 m'_def[symmetric] pv2)
  let ?old = "[(a0, n0, False), (a, n, False)]"
  have hpD: "heap_partial D (B0 @ ?old @ B2) ?Ls1" using dn(1) by simp
  have c1: "contig (unat (seg_list D) + 96) B0 a0" using p0(1) sl by simp
  have co: "contig a0 ?old (a0 + (n0 + n))" using sf p0 by (simp add: add.assoc)
  have t: "16 \<le> n0 + n" "8 dvd (n0 + n)" using sf p0 by (simp_all add: dvd_add)
  have so: "same_outside {a0 - 4 ..< a0 + (n0 + n) - 4} (mem D) m'"
    using so3 by (rule same_outside_mono) (use a4 sf(3) p0 in auto)
  have xu: "a0 \<notin> set (concat ?Ls1)" unfolding rm by simp
  have u: "\<forall>b \<in> set ?old. fst b \<notin> set (concat ?Ls1)" using unl unfolding rm by simp
  have dB: "distinct (map fst ?B)" by (rule contig_distinct[OF heap_blocks_contig[OF hb]])
  have d: "fst ` set (B0 @ B2) \<inter> {a0} = {}" using dB by auto
  have al': "all_listed (B0 @ B2) ?Ls1"
    using al _ rm d by (rule all_listed_drop) auto
  have naf': "no_adjacent_free (B0 @ (a0, n0 + n, False) # B2)"
    using naf nx by (auto simp add: naf_append[of B0] naf_snoc naf_cons)
  from merge_finish[OF hpD c1 co t so t3 u xu al' naf']
  show "heap_inv (fst (coalesce s (W a))) (B0 @ (a0, n0 + n, False) # B2)
           (ls_insert ?Ls1 (cls (n0 + n)) a0)"
    unfolding ce by simp
  show "snd (coalesce s (W a)) = W a0" unfolding ce by simp
qed

lemma coalesce_case4:
  assumes hp: "heap_partial s ((B0 @ [(a0, n0, False)]) @ (a, n, False) # (a2, n2, False) # B3) Ls"
    and unl: "a \<notin> set (concat Ls)"
    and al: "all_listed ((B0 @ [(a0, n0, False)]) @ (a2, n2, False) # B3) Ls"
    and naf: "no_adjacent_free ((B0 @ [(a0, n0, False)]) @ (a, n, True) # (a2, n2, False) # B3)"
  shows "snd (coalesce s (W a)) = W a0"
    and "heap_inv (fst (coalesce s (W a))) (B0 @ (a0, n0 + n + n2, False) # B3)
           (ls_insert (ls_remove (ls_remove Ls (cls n0) a0) (cls n2) (a + n))
              (cls (n0 + n + n2)) a0)"
proof -
  let ?B = "(B0 @ [(a0, n0, False)]) @ (a, n, False) # (a2, n2, False) # B3"
  let ?Ls1 = "ls_remove Ls (cls n0) a0"
  let ?Ls2 = "ls_remove ?Ls1 (cls n2) (a + n)"
  let ?t = "n0 + n + n2"
  from hp have hb: "heap_blocks s ?B" and lo: "listed_ok ?B Ls" and fl: "free_lists s Ls"
    by (simp_all add: heap_partial_def)
  note sf = split_facts[OF hb]
  from sf(1) have p0: "contig (unat (seg_list s) + 96) B0 a0" "16 \<le> n0" "8 dvd n0" "a0 + n0 = a"
    by (simp_all add: contig_snoc)
  from next_tag(2)[OF hb refl] have nt: "a2 = a + n" "16 \<le> n2" "8 dvd n2" "a + n + n2 < 4294967296"
    by simp_all
  have m: "(a, n, False) \<in> set ?B" and m0: "(a0, n0, False) \<in> set ?B"
    and m2: "(a + n, n2, False) \<in> set ?B" using nt(1) by simp_all
  have a4: "4 \<le> a0" "20 \<le> a" using contig_le[OF p0(1)] p0(2,4) by simp_all
  note r = coalesce_reads[OF hb]
  have pv: "PREV_BLKP (mem s) (W a) = W a0" using r(5) by simp
  have pa0: "GET_ALLOC (mem s) (FTRP (mem s) (W a0)) = 0" using r(1) r(5) by simp
  have na0: "GET_ALLOC (mem s) (HDRP (W (a + n))) = 0"
    using heap_blocks_macros(2)[OF hb m2] by simp
  have dB: "distinct (map fst ?B)" by (rule contig_distinct[OF heap_blocks_contig[OF hb]])
  have ne: "a0 \<noteq> a + n" "a0 \<noteq> a" using p0 sf(3) by simp_all
  have l0: "a0 \<in> set (concat Ls)" and l2: "a + n \<in> set (concat Ls)"
    using al nt(1) by (simp_all add: all_listed_def)
  have ain0: "a0 \<in> set (Ls ! cls n0)" by (rule in_listed_class[OF hp m0 l0])
  define D1 where "D1 = delete_node s (W a0)"
  note dn1 = delete_node_heap[OF hp cls_less ain0, folded D1_def]
  have sl1: "seg_list D1 = seg_list s" by (subst dn1(3), simp)
  have hb1: "heap_blocks D1 ?B" and lo1: "listed_ok ?B ?Ls1" and fl1: "free_lists D1 ?Ls1"
    using dn1(1) by (simp_all add: heap_partial_def)
  have len: "length Ls = LIST_LIMIT" using fl by (rule free_lists_length)
  have dL: "distinct (concat Ls)" using lo by (simp add: listed_ok_def)
  have cl: "cls n0 < length Ls" using len cls_less[of n0] by simp
  have rm1: "set (concat ?Ls1) = set (concat Ls) - {a0}"
    by (rule ls_remove_concat(1)[OF dL cl ain0])
  have l2': "a + n \<in> set (concat ?Ls1)" unfolding rm1 using l2 ne by simp
  have ain2: "a + n \<in> set (?Ls1 ! cls n2)" by (rule in_listed_class[OF dn1(1) m2 l2'])
  define D2 where "D2 = delete_node D1 (W (a + n))"
  note dn2 = delete_node_heap[OF dn1(1) cls_less ain2, folded D2_def]
  have sl2: "seg_list D2 = seg_list s" using sl1 by (subst dn2(3), simp)
  have hb2: "heap_blocks D2 ?B" using dn2(1) by (simp add: heap_partial_def)
  have len1: "length ?Ls1 = LIST_LIMIT" using fl1 by (rule free_lists_length)
  have dL1: "distinct (concat ?Ls1)" using lo1 by (simp add: listed_ok_def)
  have cl1: "cls n2 < length ?Ls1" using len1 cls_less[of n2] by simp
  have rm2: "set (concat ?Ls2) = set (concat Ls) - {a0, a + n}"
    using ls_remove_concat(1)[OF dL1 cl1 ain2] rm1 by auto
  note r1 = coalesce_reads[OF hb1]
  note r2 = coalesce_reads[OF hb2]
  have nb1: "NEXT_BLKP (mem D1) (W a) = W (a + n)" by (rule r1(4))
  have pv2: "PREV_BLKP (mem D2) (W a) = W a0" using r2(5) by simp
  have nb2: "NEXT_BLKP (mem D2) (W a) = W (a + n)" by (rule r2(4))
  have hdr: "HDRP (W a0) = W (a0 - 4)" using a4 by (simp add: HDRP_W)
  have s0: "GET_SIZE (mem D2) (W (a0 - 4)) = W n0"
    using heap_blocks_macros(1)[OF hb2 m0] hdr by simp
  have f2: "FTRP (mem D2) (W (a + n)) = W (a + n + n2 - 8)"
    by (rule heap_blocks_macros(4)[OF hb2 m2])
  note h2 = heap_blocks_mem[OF hb2 m2]
  have s2: "GET_SIZE (mem D2) (W (a + n + n2 - 8)) = W n2"
    using h2(7) h2(4) by (rule GET_SIZE_raw) (use h2 in simp)
  have sz1: "W n + (W n0 + W n2) = W ?t" by (simp add: W_add add.commute add.left_commute)
  have gp: "GET (mem D2) (W (a - 8)) = tag n0 False"
    using prev_tag(2)[OF hb2 _ , of a0 n0 False] by simp
  have gh: "GET (mem D2) (W (a - 4)) = tag n False" by (rule heap_blocks_mem(6)[OF hb2 m])
  have gn: "GET (mem D2) (W (a + n - 4)) = tag n2 False" using h2(6) by simp
  have e: "a0 + ?t - 8 = a + n + n2 - 8" "a - n0 = a0" "a0 + ?t = a + n + n2"
    using p0(4) by simp_all
  have n32: "n0 < 4294967296" "n < 4294967296" "n2 < 4294967296" "a0 + ?t \<le> 4294967296"
    using nt(4) p0(4) by simp_all
  define m1 where "m1 = PUT (mem D2) (W (a0 - 4)) (tag ?t False)"
  define m' where "m' = PUT m1 (W (a + n + n2 - 8)) (tag ?t False)"
  have t3: "tagged m' (a0, ?t, False)"
    and so3: "same_outside ({a0 - 4 ..< a0} \<union> {a + n + n2 - 8 ..< a + n + n2 - 4}) (mem D2) m'"
    using put_tags[of a0 ?t "mem D2" False] a4 n32 p0(2) unfolding m'_def m1_def e by simp_all
  have "GET m1 (W (a - 4)) = GET (mem D2) (W (a - 4))"
    unfolding m1_def by (rule GET_PUT_W) (use p0 sf(7) a4 in auto)
  then have g1: "GET m1 (W (a - 4)) = tag n False" using gh by simp
  have nbm: "NEXT_BLKP m1 (W a) = W (a + n)"
    using g1 by (rule NEXT_BLKP_tag) (use a4 sf(4) n32 in simp_all)
  have "GET m1 (W (a + n - 4)) = GET (mem D2) (W (a + n - 4))"
    unfolding m1_def by (rule GET_PUT_W) (use p0 sf(3,7) a4 in auto)
  then have g2: "GET m1 (W (a + n - 4)) = tag n2 False" using gn by simp
  have fm: "FTRP m1 (W (a + n)) = W (a + n + n2 - 8)"
    using g2 by (rule FTRP_tag) (use nt n32 a4 in simp_all)
  have "GET m' (W (a - 8)) = GET (mem D2) (W (a - 8))"
    using so3 by (rule GET_same_outside) (use p0 sf(3,7) a4 in auto)
  then have g3: "GET m' (W (a - 8)) = tag n0 False" using gp by simp
  have pvm: "PREV_BLKP m' (W a) = W a0"
    using PREV_BLKP_tag[OF g3] p0 n32(1) unfolding e by simp
  have ce: "coalesce s (W a) = (insert_node (D2\<lparr>mem := m'\<rparr>) (W a0) (W ?t), W a0)"
    unfolding coalesce_def Let_def
    by (simp add: pv pa0 r(3,4) na0 D1_def[symmetric] nb1 D2_def[symmetric] pv2 nb2 hdr s0 f2 s2
        sz1 put_mem tag_PACK[symmetric] m1_def[symmetric] nbm fm m'_def[symmetric] pvm)
  let ?old = "[(a0, n0, False), (a, n, False), (a + n, n2, False)]"
  have hpD: "heap_partial D2 (B0 @ ?old @ B3) ?Ls2" using dn2(1) nt(1) by simp
  have c1: "contig (unat (seg_list D2) + 96) B0 a0" using p0(1) sl2 by simp
  have co: "contig a0 ?old (a0 + ?t)" using sf p0 nt by (simp add: add.assoc)
  have t: "16 \<le> ?t" "8 dvd ?t" using sf p0 nt by (simp_all add: dvd_add)
  have so: "same_outside {a0 - 4 ..< a0 + ?t - 4} (mem D2) m'"
    using so3 by (rule same_outside_mono) (use a4 sf(3) p0 nt in auto)
  have xu: "a0 \<notin> set (concat ?Ls2)" unfolding rm2 by simp
  have u: "\<forall>b \<in> set ?old. fst b \<notin> set (concat ?Ls2)" using unl unfolding rm2 by simp
  have d: "fst ` set (B0 @ B3) \<inter> {a0, a + n} = {}" using dB nt(1) by auto
  have al': "all_listed (B0 @ B3) ?Ls2"
    using al _ rm2 d by (rule all_listed_drop) auto
  have naf': "no_adjacent_free (B0 @ (a0, ?t, False) # B3)"
    using naf by (auto simp add: naf_append[of B0] naf_snoc naf_cons)
  from merge_finish[OF hpD c1 co t so t3 u xu al' naf']
  show "heap_inv (fst (coalesce s (W a))) (B0 @ (a0, ?t, False) # B3)
           (ls_insert ?Ls2 (cls ?t) a0)"
    unfolding ce by simp
  show "snd (coalesce s (W a)) = W a0" unfolding ce by simp
qed



subsection \<open>Coalescing keeps the heap well formed\<close>

lemma coalesce_inv:
  assumes hp: "heap_partial s (B1 @ (a, n, False) # B2) Ls" and unl: "a \<notin> set (concat Ls)"
    and al: "all_listed (B1 @ B2) Ls" and naf: "no_adjacent_free (B1 @ (a, n, True) # B2)"
  shows "heap_inv (fst (coalesce s (W a))) (fst (coalesced B1 a n B2 Ls))
           (snd (coalesced B1 a n B2 Ls))"
    and "snd (coalesce s (W a))
           = W (if B1 \<noteq> [] \<and> \<not> snd (snd (last B1)) then fst (last B1) else a)"
proof -
  let ?pf = "B1 \<noteq> [] \<and> \<not> snd (snd (last B1))"
  let ?nf = "B2 \<noteq> [] \<and> \<not> snd (snd (hd B2))"
  have "heap_inv (fst (coalesce s (W a))) (fst (coalesced B1 a n B2 Ls))
           (snd (coalesced B1 a n B2 Ls))
      \<and> snd (coalesce s (W a)) = W (if ?pf then fst (last B1) else a)"
  proof (cases ?pf)
    case pf: True
    obtain a0 n0 al0 where l: "last B1 = (a0, n0, al0)" by (cases "last B1")
    have al0: "\<not> al0" using pf l by simp
    have B1: "B1 = butlast B1 @ [(a0, n0, False)]"
      using pf l al0 by (metis append_butlast_last_id)
    show ?thesis
    proof (cases ?nf)
      case nf: True
      obtain a2 n2 al2 B3 where B2: "B2 = (a2, n2, al2) # B3" using nf by (cases B2) auto
      have al2: "\<not> al2" using nf B2 by simp
      have hp': "heap_partial s ((butlast B1 @ [(a0, n0, False)]) @ (a, n, False) # (a2, n2, False) # B3) Ls"
        using hp B1 B2 al2 by simp
      have al': "all_listed ((butlast B1 @ [(a0, n0, False)]) @ (a2, n2, False) # B3) Ls"
        using al B1 B2 al2 by simp
      have naf': "no_adjacent_free ((butlast B1 @ [(a0, n0, False)]) @ (a, n, True) # (a2, n2, False) # B3)"
        using naf B1 B2 al2 by simp
      note c = coalesce_case4[OF hp' unl al' naf']
      have "coalesced B1 a n B2 Ls
          = (butlast B1 @ (a0, n0 + n + n2, False) # B3,
             ls_insert (ls_remove (ls_remove Ls (cls n0) a0) (cls n2) (a + n)) (cls (n0 + n + n2)) a0)"
        using pf nf l B2 by (simp add: coalesced_def)
      then show ?thesis using c pf l by auto
    next
      case nf: False
      then have nx: "B2 = [] \<or> snd (snd (hd B2))" by simp
      have hp': "heap_partial s ((butlast B1 @ [(a0, n0, False)]) @ (a, n, False) # B2) Ls"
        using hp B1 by simp
      have al': "all_listed ((butlast B1 @ [(a0, n0, False)]) @ B2) Ls" using al B1 by simp
      have naf': "no_adjacent_free ((butlast B1 @ [(a0, n0, False)]) @ (a, n, True) # B2)"
        using naf B1 by simp
      note c = coalesce_case3[OF hp' unl al' naf' nx]
      have "coalesced B1 a n B2 Ls
          = (butlast B1 @ (a0, n0 + n, False) # B2,
             ls_insert (ls_remove Ls (cls n0) a0) (cls (n0 + n)) a0)"
        using pf nf l by (simp add: coalesced_def)
      then show ?thesis using c pf l by auto
    qed
  next
    case npf: False
    then have pa: "B1 = [] \<or> snd (snd (last B1))" by simp
    show ?thesis
    proof (cases ?nf)
      case nf: True
      obtain a2 n2 al2 B3 where B2: "B2 = (a2, n2, al2) # B3" using nf by (cases B2) auto
      have al2: "\<not> al2" using nf B2 by simp
      have hp': "heap_partial s (B1 @ (a, n, False) # (a2, n2, False) # B3) Ls"
        using hp B2 al2 by simp
      have al': "all_listed (B1 @ (a2, n2, False) # B3) Ls" using al B2 al2 by simp
      have naf': "no_adjacent_free (B1 @ (a, n, True) # (a2, n2, False) # B3)"
        using naf B2 al2 by simp
      note c = coalesce_case2[OF hp' unl al' naf' pa]
      have "coalesced B1 a n B2 Ls
          = (B1 @ (a, n + n2, False) # B3,
             ls_insert (ls_remove Ls (cls n2) (a + n)) (cls (n + n2)) a)"
        using npf nf B2 by (simp add: coalesced_def)
      then show ?thesis using c npf by auto
    next
      case nf: False
      then have nx: "B2 = [] \<or> snd (snd (hd B2))" by simp
      note c = coalesce_case1[OF hp unl al naf pa nx]
      have "coalesced B1 a n B2 Ls = (B1 @ (a, n, False) # B2, ls_insert Ls (cls n) a)"
        using npf nf by (simp add: coalesced_def)
      then show ?thesis using c npf by auto
    qed
  qed
  then show "heap_inv (fst (coalesce s (W a))) (fst (coalesced B1 a n B2 Ls))
           (snd (coalesced B1 a n B2 Ls))"
    and "snd (coalesce s (W a)) = W (if ?pf then fst (last B1) else a)"
    by simp_all
qed

subsection \<open>Freeing a block\<close>

lemma free_inv:
  assumes inv: "heap_inv s (B1 @ (a, n, True) # B2) Ls"
  shows "heap_inv (mm_free s (W a)) (fst (coalesced B1 a n B2 Ls)) (snd (coalesced B1 a n B2 Ls))"
proof -
  let ?B = "B1 @ (a, n, True) # B2"
  from inv have hp: "heap_partial s ?B Ls" and al: "all_listed ?B Ls" and naf: "no_adjacent_free ?B"
    by (simp_all add: heap_inv_def)
  from hp have hb: "heap_blocks s ?B" by (simp add: heap_partial_def)
  note sf = split_facts[OF hb]
  have m: "(a, n, True) \<in> set ?B" by simp
  have a4: "4 \<le> a" "0 < a" using sf(5) by simp_all
  have a0: "W a \<noteq> NULL" using W_eq_0_iff[of a] sf(7) a4 by simp
  have hdr: "HDRP (W a) = W (a - 4)" using a4 by (intro HDRP_W)
  have os: "GET_SIZE (mem s) (W (a - 4)) = W n" using heap_blocks_macros(1)[OF hb m] hdr by simp
  define m' where "m' = PUT (PUT (mem s) (W (a - 4)) (tag n False)) (W (a + n - 8)) (tag n False)"
  have t3: "tagged m' (a, n, False)"
    and so3: "same_outside ({a - 4 ..< a} \<union> {a + n - 8 ..< a + n - 4}) (mem s) m'"
    unfolding m'_def using a4 sf by (intro put_tags; simp)+
  have g2: "GET (PUT (mem s) (W (a - 4)) (tag n False)) (W (a - 4)) = tag n False"
    by (rule GET_PUT_W_same)
  have f2: "FTRP (PUT (mem s) (W (a - 4)) (tag n False)) (W a) = W (a + n - 8)"
    using g2 a4(1) sf(4) by (rule FTRP_tag) (use sf in simp_all)
  have fe: "mm_free s (W a) = fst (coalesce (s\<lparr>mem := m'\<rparr>) (W a))"
    using a0 by (simp add: mm_free_def Let_def hdr os put_mem tag_PACK[symmetric] f2 m'_def[symmetric])
  have hp0: "heap_partial s (B1 @ [(a, n, True)] @ B2) Ls" using hp by simp
  have co: "contig a [(a, n, True)] (a + n)" and cn: "contig a [(a, n, False)] (a + n)"
    using sf by simp_all
  have so: "same_outside {a - 4 ..< a + n - 4} (mem s) m'"
    using so3 by (rule same_outside_mono) (use a4 sf(3) in auto)
  have tg: "\<forall>b \<in> set [(a, n, False)]. tagged m' b" using t3 by simp
  have unl: "a \<notin> set (concat Ls)" by (rule allocated_unlisted[OF hp m])
  then have u: "\<forall>b \<in> set [(a, n, True)]. fst b \<notin> set (concat Ls)" by simp
  have hp1: "heap_partial (s\<lparr>mem := m'\<rparr>) (B1 @ [(a, n, False)] @ B2) Ls"
    using hp0 sf(1) co cn so tg u by (rule retag_mid)
  then have hp2: "heap_partial (s\<lparr>mem := m'\<rparr>) (B1 @ (a, n, False) # B2) Ls" by simp
  have al': "all_listed (B1 @ B2) Ls" using al by (simp add: all_listed_def)
  show ?thesis unfolding fe using hp2 unl al' naf by (rule coalesce_inv(1))
qed



subsection \<open>Extending the heap\<close>












subsection \<open>The merged block\<close>

lemma merged_in_coalesced:
  assumes c: "contig lo (B1 @ (a, n, al) # B2) e"
  shows "(fst (merged B1 a n B2), snd (merged B1 a n B2), False) \<in> set (fst (coalesced B1 a n B2 Ls))"
    and "fst (merged B1 a n B2) \<le> a"
    and "a + n \<le> fst (merged B1 a n B2) + snd (merged B1 a n B2)"
proof -
  let ?pf = "B1 \<noteq> [] \<and> \<not> snd (snd (last B1))"
  let ?nf = "B2 \<noteq> [] \<and> \<not> snd (snd (hd B2))"
  have "(fst (merged B1 a n B2), snd (merged B1 a n B2), False) \<in> set (fst (coalesced B1 a n B2 Ls))
      \<and> fst (merged B1 a n B2) \<le> a
      \<and> a + n \<le> fst (merged B1 a n B2) + snd (merged B1 a n B2)"
  proof (cases ?pf)
    case pf: True
    obtain a0 n0 al0 where l: "last B1 = (a0, n0, al0)" by (cases "last B1")
    have B1: "B1 = butlast B1 @ [(a0, n0, al0)]" using pf l by (metis append_butlast_last_id)
    from c obtain x where "contig lo B1 x" "contig x ((a, n, al) # B2) e"
      by (auto simp add: contig_append)
    then have "contig lo (butlast B1 @ [(a0, n0, al0)]) a" using B1 by simp
    then have e: "a0 + n0 = a" by (simp add: contig_snoc)
    show ?thesis
    proof (cases ?nf)
      case True
      then show ?thesis using pf l e by (auto simp add: merged_def coalesced_def Let_def)
    next
      case False
      then show ?thesis using pf l e by (auto simp add: merged_def coalesced_def Let_def)
    qed
  next
    case npf: False
    show ?thesis
    proof (cases ?nf)
      case True
      then show ?thesis using npf by (auto simp add: merged_def coalesced_def Let_def)
    next
      case False
      then show ?thesis using npf by (auto simp add: merged_def coalesced_def Let_def)
    qed
  qed
  then show "(fst (merged B1 a n B2), snd (merged B1 a n B2), False) \<in> set (fst (coalesced B1 a n B2 Ls))"
    and "fst (merged B1 a n B2) \<le> a"
    and "a + n \<le> fst (merged B1 a n B2) + snd (merged B1 a n B2)"
    by simp_all
qed

lemma heap_inv_listed:
  assumes "heap_inv s B Ls" "(a, n, False) \<in> set B"
  shows "a \<in> set (Ls ! cls n)"
  using assms by (auto simp add: heap_inv_def intro: in_class)


lemma heap_inv_contig:
  "heap_inv s B Ls \<Longrightarrow> contig (unat (seg_list s) + 96) B (unat (mem_brk s))"
  by (simp add: heap_inv_def heap_partial_def heap_blocks_contig)



subsection \<open>Placement for every request that is a positive multiple of 8\<close>









subsection \<open>The example heaps are well formed\<close>

lemma lists_explicit:
  "lists0 = [[], [], [], [], [], [], [], [], [], [], [], [], [], [], [], [], [], [], [4192], []]"
  "lists1 = [[], [], [], [], [], [], [], [], [], [], [], [], [], [], [], [], [], [], [4224], []]"
  by (simp_all add: lists0_def lists1_def numeral_eq_Suc)

lemma lists_length: "length lists0 = LIST_LIMIT" "length lists1 = LIST_LIMIT"
  by (simp_all add: lists0_def lists1_def)

lemma cls_examples: "cls 4096 = 18" "cls 4064 = 18" "cls 32 = 2"
  by (simp_all add: cls_def get_list_index_def)


lemma heap1_inv: "heap_inv heap1 [(4192, 32, True), (4224, 4064, False)] lists1"
proof -
  have hb: "heap_blocks heap1 [(4192, 32, True), (4224, 4064, False)]"
    by (simp add: heap_blocks_def Let_def tagged_def tag_def PACK_def heap1_eq read_simps)
  have fl: "free_lists heap1 lists1"
    unfolding free_lists_def ball_lessThan_20 upt20
    by (simp add: lists_explicit heap1_eq read_simps)
  have lo: "listed_ok [(4192, 32, True), (4224, 4064, False)] lists1"
    unfolding listed_ok_def lists_length ball_lessThan_20 upt20
    by (simp add: lists_explicit cls_examples)
  have al: "all_listed [(4192, 32, True), (4224, 4064, False)] lists1"
    by (simp add: all_listed_def lists_explicit)
  show ?thesis using hb fl lo al by (simp add: heap_inv_def heap_partial_def)
qed

lemma heap_inv_tagged: "heap_inv s B Ls \<Longrightarrow> b \<in> set B \<Longrightarrow> tagged (mem s) b"
  by (simp add: heap_inv_def heap_partial_def heap_blocks_def Let_def)

section \<open>Placing a request in a free block\<close>




section \<open>Reallocation that absorbs the free successor\<close>

text \<open>
  Claim C5. Let the heap be well formed, with an allocated block of \<open>n\<close> bytes at \<open>a\<close>
  followed by a free block of \<open>n2\<close> bytes. For a request \<open>sz \<noteq> 0\<close> whose adjusted size is
  larger than \<open>n\<close> (so it does not fit in place) and at most \<open>n + n2\<close>, \<^verbatim>\<open>mm_realloc\<close> returns
  the pointer it was given. The successor, which was in the list of its class, is in no
  free list afterwards; the block at \<open>a\<close> has header and footer \<open>(n + n2, allocated)\<close> and
  is followed by the blocks that followed the successor, so no surplus is split off; the
  heap is well formed again; and the payload bytes of the block are the same as before.
\<close>

theorem realloc_absorbs_next_free:
  assumes "heap_inv s (B1 @ (a, n, True) # (a2, n2, False) # B2) Ls"
    and "sz \<noteq> 0" and "W n < adjusted_size sz" and "adjusted_size sz \<le> W (n + n2)"
  shows "\<exists>s'. mm_realloc s (W a) sz = Some (s', W a)
    \<and> a2 = a + n \<and> a2 \<in> set (Ls ! cls n2) \<and> a2 \<notin> set (concat (ls_remove Ls (cls n2) a2))
    \<and> tagged (mem s') (a, n + n2, True)
    \<and> heap_inv s' (B1 @ (a, n + n2, True) # B2) (ls_remove Ls (cls n2) a2)
    \<and> (\<forall>x. a \<le> x \<and> x < a + n - 8 \<longrightarrow> mem s' (W x) = mem s (W x))"
proof -
  let ?B = "B1 @ (a, n, True) # (a2, n2, False) # B2"
  from assms(1) have hp: "heap_partial s ?B Ls" and al: "all_listed ?B Ls"
    by (simp_all add: heap_inv_def)
  then have hb: "heap_blocks s ?B" and lo: "listed_ok ?B Ls" by (simp_all add: heap_partial_def)
  from next_tag(2)[OF hb refl] have a2: "a2 = a + n" by simp
  have m2: "(a2, n2, False) \<in> set ?B" by simp
  have ain: "a2 \<in> set (Ls ! cls n2)" by (rule in_class[OF hp al m2])
  have dL: "distinct (concat Ls)" using lo by (simp add: listed_ok_def)
  have cl: "cls n2 < length Ls"
    using free_lists_length[of s Ls] hp cls_less[of n2] by (simp add: heap_partial_def)
  have gone: "a2 \<notin> set (concat (ls_remove Ls (cls n2) a2))"
    using ls_remove_concat(1)[OF dL cl ain] by simp
  from realloc_absorb[OF assms] obtain s' where s':
    "mm_realloc s (W a) sz = Some (s', W a)"
    "heap_inv s' (B1 @ (a, n + n2, True) # B2) (ls_remove Ls (cls n2) (a + n))"
    "\<forall>x. a \<le> x \<and> x < a + n - 8 \<longrightarrow> mem s' (W x) = mem s (W x)"
    by blast
  have "tagged (mem s') (a, n + n2, True)" by (rule heap_inv_tagged[OF s'(2)]) simp
  then show ?thesis using s' a2 ain gone by blast
qed

theorem realloc_absorbs_next_free_witness:
  "heap_inv heap1 ([] @ (4192, 32, True) # (4224, 4064, False) # []) lists1
   \<and> (100::word32) \<noteq> 0 \<and> W 32 < adjusted_size 100 \<and> adjusted_size 100 \<le> W (32 + 4064)
   \<and> (\<exists>s'. mm_realloc heap1 4192 100 = Some (s', 4192)
          \<and> 4224 \<in> set (lists1 ! 18) \<and> 4224 \<notin> set (concat (ls_remove lists1 18 4224))
          \<and> tagged (mem s') (4192, 4096, True)
          \<and> heap_inv s' [(4192, 4096, True)] (ls_remove lists1 18 4224)
          \<and> (\<forall>x. 4192 \<le> x \<and> x < 4216 \<longrightarrow> mem s' (W x) = mem heap1 (W x)))"
proof -
  have h: "heap_inv heap1 ([] @ (4192, 32, True) # (4224, 4064, False) # []) lists1"
    using heap1_inv by simp
  have a: "adjusted_size 100 = 112" by (simp add: adjusted_size_def)
  have b: "(100::word32) \<noteq> 0" "W 32 < adjusted_size 100" "adjusted_size 100 \<le> W (32 + 4064)"
    unfolding a by simp_all
  show ?thesis
    using realloc_absorbs_next_free[OF h b] h b
    by (simp add: cls_examples)
qed

section \<open>Immediate coalescing\<close>



section \<open>Boundary behaviour of the public interface\<close>

text \<open>
  Claim C8. \<^verbatim>\<open>mm_malloc(0)\<close> returns null and changes nothing; \<^verbatim>\<open>mm_free(NULL)\<close> changes
  nothing; \<^verbatim>\<open>mm_realloc(NULL, n)\<close> is \<^verbatim>\<open>mm_malloc(n)\<close> for every \<open>n\<close>; and
  \<^verbatim>\<open>mm_realloc(p, 0)\<close> for a non-null \<open>p\<close> returns null after \<^verbatim>\<open>mm_free(p)\<close>. What that
  does to the heap: when \<open>p\<close> is an allocated block \<open>(a, k)\<close> of a well-formed heap, the
  heap that \<^verbatim>\<open>mm_realloc(p, 0)\<close> leaves is well formed, and in it the bytes of the block
  belong to a free block, merged with the free neighbours, that is in the free list of
  the class of its size.
\<close>

theorem api_boundaries:
  "mm_malloc s 0 = Some (s, NULL)
   \<and> mm_free s NULL = s
   \<and> mm_realloc s NULL n = mm_malloc s n
   \<and> (p \<noteq> NULL \<longrightarrow> mm_realloc s p 0 = Some (mm_free s p, NULL))
   \<and> (heap_inv s (B1 @ (a, k, True) # B2) Ls \<longrightarrow>
        W a \<noteq> NULL
        \<and> (\<exists>s'. mm_realloc s (W a) 0 = Some (s', NULL)
              \<and> heap_inv s' (fst (coalesced B1 a k B2 Ls)) (snd (coalesced B1 a k B2 Ls))
              \<and> tagged (mem s') (fst (merged B1 a k B2), snd (merged B1 a k B2), False))
        \<and> (fst (merged B1 a k B2), snd (merged B1 a k B2), False)
              \<in> set (fst (coalesced B1 a k B2 Ls))
        \<and> fst (merged B1 a k B2) \<le> a \<and> a + k \<le> fst (merged B1 a k B2) + snd (merged B1 a k B2)
        \<and> fst (merged B1 a k B2) \<in> set (snd (coalesced B1 a k B2 Ls) ! cls (snd (merged B1 a k B2)))
        \<and> (a, k, True) \<notin> set (fst (coalesced B1 a k B2 Ls)))"
proof (intro conjI impI)
  show "mm_malloc s 0 = Some (s, NULL)" by (simp add: mm_malloc_def)
  show "mm_free s NULL = s" by (simp add: mm_free_def)
  show "mm_realloc s NULL n = mm_malloc s n" by (simp add: mm_realloc_def)
  show "mm_realloc s p 0 = Some (mm_free s p, NULL)" if "p \<noteq> NULL"
    using that by (simp add: mm_realloc_def)
next
  assume inv: "heap_inv s (B1 @ (a, k, True) # B2) Ls"
  let ?B' = "fst (coalesced B1 a k B2 Ls)" and ?Ls' = "snd (coalesced B1 a k B2 Ls)"
  let ?a' = "fst (merged B1 a k B2)" and ?n' = "snd (merged B1 a k B2)"
  from inv have hb: "heap_blocks s (B1 @ (a, k, True) # B2)"
    by (simp add: heap_inv_def heap_partial_def)
  note sf = split_facts[OF hb]
  show a0: "W a \<noteq> NULL" using W_eq_0_iff[of a] sf(5,7) by simp
  have fi: "heap_inv (mm_free s (W a)) ?B' ?Ls'" using inv by (rule free_inv)
  note ct = heap_inv_contig[OF inv]
  show m: "(?a', ?n', False) \<in> set ?B'" by (rule merged_in_coalesced(1)[OF ct])
  show "?a' \<le> a" by (rule merged_in_coalesced(2)[OF ct])
  show "a + k \<le> ?a' + ?n'" by (rule merged_in_coalesced(3)[OF ct])
  show "?a' \<in> set (?Ls' ! cls ?n')" using fi m by (rule heap_inv_listed)
  have "tagged (mem (mm_free s (W a))) (?a', ?n', False)" using fi m by (rule heap_inv_tagged)
  moreover have "mm_realloc s (W a) 0 = Some (mm_free s (W a), NULL)"
    using a0 by (simp add: mm_realloc_def)
  ultimately show "\<exists>s'. mm_realloc s (W a) 0 = Some (s', NULL) \<and> heap_inv s' ?B' ?Ls'
      \<and> tagged (mem s') (?a', ?n', False)"
    using fi by blast
  show "(a, k, True) \<notin> set ?B'"
  proof
    assume x: "(a, k, True) \<in> set ?B'"
    have c': "contig (unat (seg_list (mm_free s (W a))) + 96) ?B' (unat (mem_brk (mm_free s (W a))))"
      by (rule heap_inv_contig[OF fi])
    from contig_disjoint[OF c' x m] merged_in_coalesced(2,3)[OF ct] sf(3)
    show False by auto
  qed
qed

theorem api_boundaries_witness:
  "mm_malloc heap1 0 = Some (heap1, NULL)
   \<and> mm_free heap1 NULL = heap1
   \<and> mm_realloc heap1 NULL 24 = mm_malloc heap1 24
   \<and> (4192::word32) \<noteq> NULL \<and> mm_realloc heap1 4192 0 = Some (mm_free heap1 4192, NULL)
   \<and> heap_inv heap1 ([] @ (4192, 32, True) # [(4224, 4064, False)]) lists1
   \<and> (\<exists>s'. mm_realloc heap1 4192 0 = Some (s', NULL)
          \<and> heap_inv s' [(4192, 4096, False)] (ls_insert (ls_remove lists1 18 4224) 18 4192)
          \<and> tagged (mem s') (4192, 4096, False))
   \<and> 4192 \<in> set (ls_insert (ls_remove lists1 18 4224) 18 4192 ! 18)"
proof -
  have h1: "heap_inv heap1 ([] @ (4192, 32, True) # [(4224, 4064, False)]) lists1"
    using heap1_inv by simp
  have c1: "coalesced [] 4192 32 [(4224, 4064, False)] lists1
      = ([(4192, 4096, False)], ls_insert (ls_remove lists1 18 4224) 18 4192)"
    by (simp add: coalesced_def Let_def cls_examples)
  have m1: "merged [] 4192 32 [(4224, 4064, False)] = (4192, 4096)"
    by (simp add: merged_def)
  note t = api_boundaries[where s = heap1 and n = 24 and p = 4192 and ?B1.0 = "[]" and a = 4192
      and k = 32 and ?B2.0 = "[(4224, 4064, False)]" and Ls = lists1]
  show ?thesis
    using t h1 unfolding c1 m1 by (auto simp add: cls_examples)
qed

end
